theory Spec2Isabelle
  imports Complex_Main "HOL-Library.Log_Nat"
begin

section \<open>SVG path outlines to an extruded mesh: the geometry of \<open>svg_to_obj.py\<close>\<close>

text \<open>
  The development embeds the three functions of \<open>svg_to_obj.py\<close> that carry geometry:
  \<open>approximate_bezier\<close>, \<open>parse_svg_path_robust\<close> and
  \<open>triangulate_polygon_earclip\<close>, and the loop of \<open>svg_to_obj\<close> that extrudes each
  parsed path into the vertex and face buffers.

  Coordinates are Python floats: IEEE 754 binary64 numbers with round-to-nearest-even,
  the two infinities and NaN. They are modelled as such. Python integers that count or
  index (list lengths, vertex numbers) are never negative in this code and are modelled
  as \<open>nat\<close>.
\<close>

subsection \<open>Python floats\<close>

text \<open>
  A float is a finite number, an infinity or NaN. A finite float is given by its value, a
  rational number. The two zeros of IEEE 754 are one value here: \<open>0.0 == -0.0\<close> holds
  in Python, they behave alike in every sum, product and comparison of this program, and
  they differ only in how the output file prints them, which is outside the model.

  The Python integers that meet floats in this program (the initial \<open>0\<close> of the cursor,
  the constants \<open>1\<close>, \<open>2\<close> and \<open>3\<close>, an integer \<open>depth\<close>) are written \<open>Fin n\<close> as well: an
  operation of an integer with a float first converts the integer, exactly for these
  values, and the division of two integers is the exact quotient, rounded once.
\<close>

datatype pyfloat = Fin rat | PInf | NInf | NaN

definition pow2 :: "int \<Rightarrow> rat" where
  "pow2 e = (if 0 \<le> e then 2 ^ nat e else 1 / 2 ^ nat (- e))"

text \<open>
  The binary exponent of a non-zero rational: the \<open>e\<close> with \<open>2^e \<le> |x| < 2^(e+1)\<close>. It
  is found from the bit lengths of numerator and denominator, which fix it up to one.
\<close>

definition floor_log2 :: "rat \<Rightarrow> int" where
  "floor_log2 x =
     (let (p, q) = quotient_of \<bar>x\<bar>;
          d = int (floorlog 2 (nat p)) - int (floorlog 2 (nat q))
      in if pow2 d \<le> \<bar>x\<bar> then d else d - 1)"

definition round_half_even :: "rat \<Rightarrow> int" where
  "round_half_even q =
     (let n = \<lfloor>q\<rfloor>; f = q - of_int n
      in if f < 1 / 2 then n else if 1 / 2 < f then n + 1 else if even n then n else n + 1)"

text \<open>
  Rounding of an exact result to binary64, to nearest with ties to even. Doubles near
  \<open>x\<close> are the multiples of \<open>2^(e - 52)\<close>, with \<open>e\<close> the binary exponent of \<open>x\<close>, and
  of \<open>2^(-1074)\<close> in the subnormal range. A result at or beyond \<open>2^1024 - 2^970\<close>, the
  midpoint between the largest double and \<open>2^1024\<close>, is an infinity.
\<close>

definition to_double :: "rat \<Rightarrow> pyfloat" where
  "to_double x =
     (if x = 0 then Fin 0
      else if pow2 1024 - pow2 970 \<le> \<bar>x\<bar> then (if 0 < x then PInf else NInf)
      else let u = pow2 (max (floor_log2 x - 52) (- 1074))
           in Fin (of_int (round_half_even (x / u)) * u))"

text \<open>A rational is a double when rounding leaves it as it is.\<close>

definition is_double :: "rat \<Rightarrow> bool" where
  "is_double x = (to_double x = Fin x)"

text \<open>Negation, addition and multiplication of floats, with the IEEE 754 special cases.\<close>

fun float_neg :: "pyfloat \<Rightarrow> pyfloat" where
  "float_neg (Fin x) = Fin (- x)"
| "float_neg PInf = NInf"
| "float_neg NInf = PInf"
| "float_neg NaN = NaN"

fun float_add :: "pyfloat \<Rightarrow> pyfloat \<Rightarrow> pyfloat" where
  "float_add (Fin x) (Fin y) = to_double (x + y)"
| "float_add NaN b = NaN"
| "float_add a NaN = NaN"
| "float_add PInf NInf = NaN"
| "float_add NInf PInf = NaN"
| "float_add PInf b = PInf"
| "float_add a PInf = PInf"
| "float_add NInf b = NInf"
| "float_add a NInf = NInf"

definition signed_inf :: "bool \<Rightarrow> pyfloat" where
  "signed_inf positive = (if positive then PInf else NInf)"

fun float_mul :: "pyfloat \<Rightarrow> pyfloat \<Rightarrow> pyfloat" where
  "float_mul (Fin x) (Fin y) = to_double (x * y)"
| "float_mul NaN b = NaN"
| "float_mul a NaN = NaN"
| "float_mul PInf (Fin y) = (if y = 0 then NaN else signed_inf (0 < y))"
| "float_mul NInf (Fin y) = (if y = 0 then NaN else signed_inf (y < 0))"
| "float_mul (Fin x) PInf = (if x = 0 then NaN else signed_inf (0 < x))"
| "float_mul (Fin x) NInf = (if x = 0 then NaN else signed_inf (x < 0))"
| "float_mul PInf PInf = PInf"
| "float_mul PInf NInf = NInf"
| "float_mul NInf PInf = NInf"
| "float_mul NInf NInf = PInf"

instantiation pyfloat :: "{uminus, plus, minus, times}"
begin

definition uminus_pyfloat :: "pyfloat \<Rightarrow> pyfloat" where
  "uminus_pyfloat a = float_neg a"

definition plus_pyfloat :: "pyfloat \<Rightarrow> pyfloat \<Rightarrow> pyfloat" where
  "plus_pyfloat a b = float_add a b"

definition minus_pyfloat :: "pyfloat \<Rightarrow> pyfloat \<Rightarrow> pyfloat" where
  "minus_pyfloat a b = float_add a (float_neg b)"

definition times_pyfloat :: "pyfloat \<Rightarrow> pyfloat \<Rightarrow> pyfloat" where
  "times_pyfloat a b = float_mul a b"

instance ..

end

text \<open>\<open>x / 2\<close>, the one division by a constant in the program.\<close>

fun div2 :: "pyfloat \<Rightarrow> pyfloat" where
  "div2 (Fin x) = to_double (x / 2)"
| "div2 PInf = PInf"
| "div2 NInf = NInf"
| "div2 NaN = NaN"

text \<open>\<open>a == b\<close> on floats: NaN is equal to nothing, itself included.\<close>

definition float_eq :: "pyfloat \<Rightarrow> pyfloat \<Rightarrow> bool" where
  "float_eq a b = (a = b \<and> a \<noteq> NaN)"


fun rounded_pow :: "pyfloat \<Rightarrow> nat \<Rightarrow> pyfloat" where
  "rounded_pow (Fin x) n = to_double (x ^ n)"
| "rounded_pow PInf n = (if n = 0 then Fin 1 else PInf)"
| "rounded_pow NInf n = (if n = 0 then Fin 1 else if even n then PInf else NInf)"
| "rounded_pow NaN n = (if n = 0 then Fin 1 else NaN)"

subsection \<open>Data\<close>

type_synonym point = "pyfloat \<times> pyfloat"
type_synonym vertex = "pyfloat \<times> pyfloat \<times> pyfloat"

text \<open>
  A triangle is the three-element list \<open>[0, i, i + 1]\<close> of the source, a face the
  three-element list \<open>[v1, v2, v3]\<close>; both always have exactly three entries and are
  modelled as triples.
\<close>

type_synonym triangle = "nat \<times> nat \<times> nat"

datatype py_error = IndexError | ValueError | ZeroDivisionError

record mesh =
  vertices :: "vertex list"
  faces :: "triangle list"

subsection \<open>\<open>triangulate_polygon_earclip\<close>\<close>

text \<open>
  \<^verbatim>\<open>
  def triangulate_polygon_earclip(points):
      if len(points) < 3:
          return []
      triangles = []
      for i in range(1, len(points) - 1):
          triangles.append([0, i, i + 1])
      return triangles
  \<close>
  The \<open>for\<close> loop is a left fold over the range, appending one triangle per index.
\<close>

definition triangulate_polygon_earclip :: "point list \<Rightarrow> triangle list" where
  "triangulate_polygon_earclip points =
     (if length points < 3 then []
      else foldl (\<lambda>triangles i. triangles @ [(0, i, i + 1)]) [] [1..<length points - 1])"

subsection \<open>\<open>approximate_bezier\<close>\<close>

text \<open>
  \<^verbatim>\<open>
  def approximate_bezier(p0, p1, p2, p3, segments=10):
      points = []
      for i in range(segments + 1):
          t = i / segments
          x = (1-t)**3 * p0[0] + 3*(1-t)**2*t * p1[0] + 3*(1-t)*t**2 * p2[0] + t**3 * p3[0]
          y = (1-t)**3 * p0[1] + 3*(1-t)**2*t * p1[1] + 3*(1-t)*t**2 * p2[1] + t**3 * p3[1]
          points.append((x, y))
      return points
  \<close>
  \<open>bezier_sample\<close> is the body of the loop for one \<open>i\<close>. \<open>i / segments\<close> divides two
  integers: the exact quotient, rounded. It raises \<open>ZeroDivisionError\<close> when \<open>segments\<close>
  is 0 (the range then holds the single index 0); a negative \<open>segments\<close> gives an empty
  range and the empty list. Products and sums are taken left to right, as Python does,
  each one rounded.
\<close>

definition bezier_sample ::
  "(pyfloat \<Rightarrow> nat \<Rightarrow> pyfloat) \<Rightarrow> point \<Rightarrow> point \<Rightarrow> point \<Rightarrow> point \<Rightarrow> int \<Rightarrow> int \<Rightarrow> point" where
  "bezier_sample pw p0 p1 p2 p3 segments i =
     (let t = to_double (of_int i / of_int segments);
          x = pw (Fin 1 - t) 3 * fst p0 + Fin 3 * pw (Fin 1 - t) 2 * t * fst p1
              + Fin 3 * (Fin 1 - t) * pw t 2 * fst p2 + pw t 3 * fst p3;
          y = pw (Fin 1 - t) 3 * snd p0 + Fin 3 * pw (Fin 1 - t) 2 * t * snd p1
              + Fin 3 * (Fin 1 - t) * pw t 2 * snd p2 + pw t 3 * snd p3
      in (x, y))"

definition approximate_bezier ::
  "(pyfloat \<Rightarrow> nat \<Rightarrow> pyfloat) \<Rightarrow> point \<Rightarrow> point \<Rightarrow> point \<Rightarrow> point \<Rightarrow> int
     \<Rightarrow> py_error + point list" where
  "approximate_bezier pw p0 p1 p2 p3 segments =
     (if segments = 0 then Inl ZeroDivisionError
      else Inr (foldl (\<lambda>points i. points @ [bezier_sample pw p0 p1 p2 p3 segments i])
                  [] [0..segments]))"

subsection \<open>The tokenizer of \<open>parse_svg_path_robust\<close>\<close>

text \<open>
  \<^verbatim>\<open>
  tokens = re.findall(r'[MLHVZCmlhvzc]|[-+]?[0-9]*\.?[0-9]+(?:[eE][-+]?[0-9]+)?', path_d)
  \<close>
  \<open>re.findall\<close> scans left to right. At each position it tries the first alternative (one
  command letter), then the second (a number), with greedy quantifiers and backtracking;
  on a match it takes the matched text as a token and goes on after it, otherwise it
  moves on by one character. The pattern never matches the empty string.
\<close>

definition is_cmd_letter :: "char \<Rightarrow> bool" where
  "is_cmd_letter c = (c \<in> set ''MLHVZCmlhvzc'')"

definition is_digit :: "char \<Rightarrow> bool" where
  "is_digit c = (c \<in> set ''0123456789'')"

definition is_sign :: "char \<Rightarrow> bool" where
  "is_sign c = (c = CHR ''-'' \<or> c = CHR ''+'')"

definition is_exp_letter :: "char \<Rightarrow> bool" where
  "is_exp_letter c = (c = CHR ''e'' \<or> c = CHR ''E'')"

text \<open>
  The length matched by \<^verbatim>\<open>[0-9]*\.?[0-9]+\<close> at the start of \<open>s\<close>, if it matches. With
  \<open>k\<close> the length of the leading run of digits: when a dot and at least one digit follow
  the run, the match is the run, the dot and all the digits after it. Otherwise the dot
  is not taken, \<^verbatim>\<open>[0-9]*\<close> gives its last digit back to \<^verbatim>\<open>[0-9]+\<close>, and the match is
  the run itself, which must then be non-empty.
\<close>

definition match_mantissa :: "string \<Rightarrow> nat option" where
  "match_mantissa s =
     (let k = length (takeWhile is_digit s);
          r = drop k s;
          m = (case r of [] \<Rightarrow> 0
               | c # r' \<Rightarrow> if c = CHR ''.'' then length (takeWhile is_digit r') else 0)
      in if 0 < m then Some (k + 1 + m)
         else if 0 < k then Some k
         else None)"

text \<open>
  The length matched by the optional group \<^verbatim>\<open>(?:[eE][-+]?[0-9]+)?\<close> at the start of
  \<open>s\<close>: the whole exponent when a letter \<open>e\<close> or \<open>E\<close>, an optional sign and at least one
  digit stand there, and nothing otherwise.
\<close>

definition match_exponent :: "string \<Rightarrow> nat" where
  "match_exponent s =
     (case s of [] \<Rightarrow> 0
      | e # r \<Rightarrow>
          if is_exp_letter e then
            (let sg = (case r of [] \<Rightarrow> 0 | g # _ \<Rightarrow> if is_sign g then 1 else (0::nat));
                 d = length (takeWhile is_digit (drop sg r))
             in if 0 < d then 1 + sg + d else 0)
          else 0)"

text \<open>
  The length matched by the whole number alternative at the start of \<open>s\<close>. A leading
  sign is taken when present; without a mantissa after it nothing matches here, since the
  mantissa cannot start at the sign either.
\<close>

definition match_number :: "string \<Rightarrow> nat option" where
  "match_number s =
     (let sg = (case s of [] \<Rightarrow> 0 | g # _ \<Rightarrow> if is_sign g then 1 else (0::nat))
      in case match_mantissa (drop sg s) of
           None \<Rightarrow> None
         | Some n \<Rightarrow> Some (sg + n + match_exponent (drop (sg + n) s)))"

function tokenize :: "string \<Rightarrow> string list" where
  "tokenize [] = []"
| "tokenize (c # cs) =
     (if is_cmd_letter c then [c] # tokenize cs
      else case match_number (c # cs) of
             None \<Rightarrow> tokenize cs
           | Some n \<Rightarrow> take n (c # cs) # tokenize (drop n (c # cs)))"
  by pat_completeness auto
termination
proof (relation "measure length")
  show "wf (measure length)" by simp
next
  fix c :: char and cs :: string
  show "(cs, c # cs) \<in> measure length" by simp
next
  fix c :: char and cs :: string
  show "(cs, c # cs) \<in> measure length" by simp
next
  fix c :: char and cs :: string and n :: nat
  assume "match_number (c # cs) = Some n"
  then have "0 < n"
    by (auto simp add: match_number_def match_mantissa_def Let_def
        split: option.splits if_splits)
  then show "(drop n (c # cs), c # cs) \<in> measure length" by simp
qed

subsection \<open>\<open>float\<close> on a token\<close>

text \<open>
  The parser calls \<open>float\<close> on tokens only. A token is either a single command letter,
  on which \<open>float\<close> raises \<open>ValueError\<close>, or a literal of the shape of the number
  pattern above, on which \<open>float\<close> returns the double nearest to its decimal value, an
  infinity when that is out of range. \<open>py_float\<close> is \<open>float\<close> on these strings: it reads
  an optional sign, the integer digits, an optional dot with fraction digits, and an
  optional exponent, and answers \<open>ValueError\<close> on every string that is not of that shape
  (strings such as \<open>inf\<close> or \<open>1.\<close>, which \<open>float\<close> accepts, are never tokens).
\<close>

text \<open>The value of a decimal digit is its position in \<open>0123456789\<close>.\<close>

definition digit_value :: "char \<Rightarrow> nat" where
  "digit_value c = length (takeWhile (\<lambda>d. d \<noteq> c) ''0123456789'')"

definition digits_value :: "string \<Rightarrow> nat" where
  "digits_value ds = foldl (\<lambda>a d. 10 * a + digit_value d) 0 ds"

text \<open>
  The mantissa at the start of \<open>body\<close>: the integer digits, then an optional dot with
  fraction digits. The result is its exact value and the text after it; there is none
  when no digit follows the dot or, without a dot, when there is no digit at all.
\<close>

definition float_mantissa :: "string \<Rightarrow> (rat \<times> string) option" where
  "float_mantissa body =
     (let ip = takeWhile is_digit body;
          r1 = dropWhile is_digit body;
          dotted = (case r1 of [] \<Rightarrow> False | c # _ \<Rightarrow> c = CHR ''.'');
          fp = (if dotted then takeWhile is_digit (tl r1) else []);
          r2 = (if dotted then dropWhile is_digit (tl r1) else r1)
      in if (if dotted then fp \<noteq> [] else ip \<noteq> [])
         then Some (of_nat (digits_value (ip @ fp)) / 10 ^ length fp, r2)
         else None)"

text \<open>
  The exponent that makes up the whole of \<open>r2\<close>: nothing (exponent 0), or a letter \<open>e\<close>
  or \<open>E\<close>, an optional sign and at least one digit up to the end of the string.
\<close>

definition float_exponent :: "string \<Rightarrow> int option" where
  "float_exponent r2 =
     (case r2 of
        [] \<Rightarrow> Some 0
      | e # r3 \<Rightarrow>
          if is_exp_letter e then
            (let signed = (case r3 of [] \<Rightarrow> False | g # _ \<Rightarrow> is_sign g);
                 negative = (case r3 of [] \<Rightarrow> False | g # _ \<Rightarrow> g = CHR ''-'');
                 ep = (if signed then tl r3 else r3)
             in if ep \<noteq> [] \<and> list_all is_digit ep
                then Some (if negative then - int (digits_value ep) else int (digits_value ep))
                else None)
          else None)"

text \<open>The exact decimal value of the literal, rounded once.\<close>

definition py_float :: "string \<Rightarrow> py_error + pyfloat" where
  "py_float s =
     (let signed = (case s of [] \<Rightarrow> False | g # _ \<Rightarrow> is_sign g);
          negative = (case s of [] \<Rightarrow> False | g # _ \<Rightarrow> g = CHR ''-'');
          body = (if signed then tl s else s)
      in case float_mantissa body of
           None \<Rightarrow> Inl ValueError
         | Some (mantissa, r2) \<Rightarrow>
             (case float_exponent r2 of
                None \<Rightarrow> Inl ValueError
              | Some e \<Rightarrow>
                  let scaled = (if e < 0 then mantissa / 10 ^ nat (- e)
                                else mantissa * 10 ^ nat e)
                  in Inr (to_double (if negative then - scaled else scaled))))"

subsection \<open>\<open>parse_svg_path_robust\<close>\<close>

text \<open>
  The cursor state of the parser: the polyline built so far, the current point and the
  start of the subpath.

  \<open>x_shared\<close> says that \<open>current_x\<close> and \<open>start_x\<close> are one and the same float object,
  \<open>y_shared\<close> the same of \<open>current_y\<close> and \<open>start_y\<close>. They are after
  \<open>start_x, start_y = current_x, current_y\<close> and after
  \<open>current_x, current_y = start_x, start_y\<close>, and they are no longer once the current
  coordinate is assigned the result of \<open>float\<close> or of \<open>+=\<close>, which is a new object. This
  matters for one test only: \<open>(current_x, current_y) != (start_x, start_y)\<close> compares two
  tuples, and Python takes two items of a tuple for equal when they are the same object,
  before it asks \<open>==\<close>. So a NaN is equal to itself there when it is shared, and otherwise
  not.
\<close>

record pstate =
  points :: "point list"
  current_x :: pyfloat
  current_y :: pyfloat
  start_x :: pyfloat
  start_y :: pyfloat
  x_shared :: bool
  y_shared :: bool

definition item_eq :: "bool \<Rightarrow> pyfloat \<Rightarrow> pyfloat \<Rightarrow> bool" where
  "item_eq shared a b = (shared \<or> float_eq a b)"

text \<open>\<open>(current_x, current_y) != (start_x, start_y)\<close>\<close>

definition current_differs :: "pstate \<Rightarrow> bool" where
  "current_differs st =
     (\<not> (item_eq (x_shared st) (current_x st) (start_x st) \<and>
         item_eq (y_shared st) (current_y st) (start_y st)))"

text \<open>Sequencing of steps that may raise: the first error ends the computation.\<close>

fun bind_err :: "'e + 'a \<Rightarrow> ('a \<Rightarrow> 'e + 'b) \<Rightarrow> 'e + 'b" where
  "bind_err (Inl e) f = Inl e"
| "bind_err (Inr x) f = f x"

text \<open>
  \<open>cmd in 'Mm'\<close> on strings is Python's substring test: \<open>py_in xs ys\<close> holds when \<open>xs\<close>
  occurs in \<open>ys\<close> as a contiguous block.
\<close>

fun starts_with :: "string \<Rightarrow> string \<Rightarrow> bool" where
  "starts_with s [] = True"
| "starts_with [] (p # ps) = False"
| "starts_with (c # s) (p # ps) = (c = p \<and> starts_with s ps)"

fun py_in :: "string \<Rightarrow> string \<Rightarrow> bool" where
  "py_in xs [] = (xs = [])"
| "py_in xs (y # ys) = (starts_with (y # ys) xs \<or> py_in xs ys)"

text \<open>
  \<open>float(tokens[i + k])\<close>, with \<open>rest\<close> the tokens from index \<open>i\<close> on: \<open>IndexError\<close>
  when the list ends before that index, otherwise whatever \<open>float\<close> does on the token.
\<close>

definition float_at :: "string list \<Rightarrow> nat \<Rightarrow> py_error + pyfloat" where
  "float_at rest k = (if k < length rest then py_float (rest ! k) else Inl IndexError)"

text \<open>
  One turn of the \<open>while\<close> loop, after \<open>cmd = tokens[i]; i += 1\<close>: \<open>rest\<close> is the list of
  the tokens from the new \<open>i\<close> on. The result is the new cursor state and the number of
  tokens the branch consumed (what it added to \<open>i\<close>), or the exception it raised.
  Operands are read in the order of the source, so the first failing one decides the
  exception. A token that belongs to none of the branches changes nothing.
\<close>

definition parse_cmd ::
  "(pyfloat \<Rightarrow> nat \<Rightarrow> pyfloat) \<Rightarrow> pstate \<Rightarrow> string \<Rightarrow> string list
     \<Rightarrow> py_error + (pstate \<times> nat)" where
  "parse_cmd pw st cmd rest =
     (if py_in cmd ''Mm'' then
        bind_err (float_at rest 0) (\<lambda>x.
        bind_err (float_at rest 1) (\<lambda>y.
          let cx = (if cmd = ''M'' then x else current_x st + x);
              cy = (if cmd = ''M'' then y else current_y st + y)
          in Inr (st\<lparr>points := points st @ [(cx, cy)],
                     current_x := cx, current_y := cy,
                     start_x := cx, start_y := cy,
                     x_shared := True, y_shared := True\<rparr>, 2)))
      else if py_in cmd ''Ll'' then
        bind_err (float_at rest 0) (\<lambda>x.
        bind_err (float_at rest 1) (\<lambda>y.
          let cx = (if cmd = ''L'' then x else current_x st + x);
              cy = (if cmd = ''L'' then y else current_y st + y)
          in Inr (st\<lparr>points := points st @ [(cx, cy)],
                     current_x := cx, current_y := cy,
                     x_shared := False, y_shared := False\<rparr>, 2)))
      else if py_in cmd ''Hh'' then
        bind_err (float_at rest 0) (\<lambda>x.
          let cx = (if cmd = ''H'' then x else current_x st + x)
          in Inr (st\<lparr>points := points st @ [(cx, current_y st)],
                     current_x := cx, x_shared := False\<rparr>, 1))
      else if py_in cmd ''Vv'' then
        bind_err (float_at rest 0) (\<lambda>y.
          let cy = (if cmd = ''V'' then y else current_y st + y)
          in Inr (st\<lparr>points := points st @ [(current_x st, cy)],
                     current_y := cy, y_shared := False\<rparr>, 1))
      else if py_in cmd ''Cc'' then
        bind_err (float_at rest 0) (\<lambda>x1.
        bind_err (float_at rest 1) (\<lambda>y1.
        bind_err (float_at rest 2) (\<lambda>x2.
        bind_err (float_at rest 3) (\<lambda>y2.
        bind_err (float_at rest 4) (\<lambda>x.
        bind_err (float_at rest 5) (\<lambda>y.
          let x1' = (if cmd = ''c'' then x1 + current_x st else x1);
              y1' = (if cmd = ''c'' then y1 + current_y st else y1);
              x2' = (if cmd = ''c'' then x2 + current_x st else x2);
              y2' = (if cmd = ''c'' then y2 + current_y st else y2);
              x' = (if cmd = ''c'' then x + current_x st else x);
              y' = (if cmd = ''c'' then y + current_y st else y)
          in bind_err
               (approximate_bezier pw (current_x st, current_y st) (x1', y1') (x2', y2')
                  (x', y') 5)
               (\<lambda>curve_points.
                  Inr (st\<lparr>points := points st @ drop 1 curve_points,
                             current_x := x', current_y := y',
                             x_shared := False, y_shared := False\<rparr>, 6))))))))
      else if py_in cmd ''Zz'' then
        Inr (st\<lparr>points := (if current_differs st
                               then points st @ [(start_x st, start_y st)] else points st),
                   current_x := start_x st, current_y := start_y st,
                   x_shared := True, y_shared := True\<rparr>, 0)
      else Inr (st, 0))"

text \<open>The \<open>while i < len(tokens)\<close> loop, on the tokens from index \<open>i\<close> on.\<close>

fun parse_loop ::
  "(pyfloat \<Rightarrow> nat \<Rightarrow> pyfloat) \<Rightarrow> pstate \<Rightarrow> string list \<Rightarrow> py_error + point list" where
  "parse_loop pw st [] = Inr (points st)"
| "parse_loop pw st (cmd # rest) =
     (case parse_cmd pw st cmd rest of
        Inl e \<Rightarrow> Inl e
      | Inr (st', k) \<Rightarrow> parse_loop pw st' (drop k rest))"

text \<open>
  \<open>current_x, current_y = 0, 0\<close> and \<open>start_x, start_y = 0, 0\<close>: the four are the
  integer 0, one object.
\<close>

definition initial_pstate :: pstate where
  "initial_pstate =
     \<lparr>points = [], current_x = Fin 0, current_y = Fin 0, start_x = Fin 0, start_y = Fin 0,
      x_shared = True, y_shared = True\<rparr>"

definition parse_svg_path_robust ::
  "(pyfloat \<Rightarrow> nat \<Rightarrow> pyfloat) \<Rightarrow> string \<Rightarrow> py_error + point list" where
  "parse_svg_path_robust pw path_d = parse_loop pw initial_pstate (tokenize path_d)"

subsection \<open>The path loop of \<open>svg_to_obj\<close>\<close>

text \<open>
  Reading the document, its view box and its path elements, and writing the OBJ text, are
  outside the model: the loop is given the scale factor \<open>width / svg_width\<close>, the depth
  and, for each path element in document order, its \<open>d\<close> attribute (\<open>None\<close> when the
  element has none).

  \<^verbatim>\<open>
  scaled_points = []
  for x, y in points:
      scaled_x = x * scale
      scaled_y = -y * scale  # Flip Y axis
      scaled_points.append((scaled_x, scaled_y))
  \<close>
\<close>

definition scale_points :: "pyfloat \<Rightarrow> point list \<Rightarrow> point list" where
  "scale_points scale pts =
     foldl (\<lambda>scaled_points (x, y). scaled_points @ [(x * scale, - y * scale)]) [] pts"

text \<open>
  The extrusion of one scaled polygon into the buffers, from
  \<open>front_start = len(vertices)\<close> to the end of the loop body: the front vertices at
  \<open>depth / 2\<close>, the back vertices at \<open>-depth / 2\<close>, the front cap, the back cap with
  reversed winding, and two triangles per boundary edge. Face indices are global and
  1-based, as OBJ numbers vertices.
\<close>

definition extrude_into :: "mesh \<Rightarrow> point list \<Rightarrow> pyfloat \<Rightarrow> mesh" where
  "extrude_into m scaled_points depth =
     (let front_start = length (vertices m);
          vs1 = foldl (\<lambda>vs (x, y). vs @ [(x, y, div2 depth)]) (vertices m) scaled_points;
          back_start = length vs1;
          vs2 = foldl (\<lambda>vs (x, y). vs @ [(x, y, div2 (- depth))]) vs1 scaled_points;
          front_triangles = triangulate_polygon_earclip scaled_points;
          fs1 = foldl (\<lambda>fs (t0, t1, t2).
                         fs @ [(front_start + t0 + 1, front_start + t1 + 1, front_start + t2 + 1)])
                  (faces m) front_triangles;
          fs2 = foldl (\<lambda>fs (t0, t1, t2).
                         fs @ [(back_start + t0 + 1, back_start + t2 + 1, back_start + t1 + 1)])
                  fs1 front_triangles;
          n = length scaled_points;
          fs3 = foldl (\<lambda>fs i.
                         let next_i = (i + 1) mod n;
                             v1 = front_start + i + 1;
                             v2 = back_start + i + 1;
                             v3 = back_start + next_i + 1;
                             v4 = front_start + next_i + 1
                         in fs @ [(v1, v2, v3), (v1, v3, v4)])
                  fs2 [0..<n]
      in \<lparr>vertices = vs2, faces = fs3\<rparr>)"

text \<open>
  The body of \<open>for path in paths\<close>: a missing or empty \<open>d\<close> and a polyline of fewer than
  three points \<open>continue\<close> with the buffers untouched; an exception of the parser is not
  caught and leaves \<open>svg_to_obj\<close>.
\<close>

definition process_path ::
  "(pyfloat \<Rightarrow> nat \<Rightarrow> pyfloat) \<Rightarrow> pyfloat \<Rightarrow> pyfloat \<Rightarrow> mesh \<Rightarrow> string option
     \<Rightarrow> py_error + mesh" where
  "process_path pw scale depth m path_d =
     (case path_d of
        None \<Rightarrow> Inr m
      | Some d \<Rightarrow>
          if d = [] then Inr m
          else bind_err (parse_svg_path_robust pw d) (\<lambda>pts.
                 if length pts < 3 then Inr m
                 else Inr (extrude_into m (scale_points scale pts) depth)))"

fun process_paths ::
  "(pyfloat \<Rightarrow> nat \<Rightarrow> pyfloat) \<Rightarrow> pyfloat \<Rightarrow> pyfloat \<Rightarrow> mesh \<Rightarrow> string option list
     \<Rightarrow> py_error + mesh" where
  "process_paths pw scale depth m [] = Inr m"
| "process_paths pw scale depth m (path_d # paths) =
     bind_err (process_path pw scale depth m path_d)
       (\<lambda>m'. process_paths pw scale depth m' paths)"

definition empty_mesh :: mesh where
  "empty_mesh = \<lparr>vertices = [], faces = []\<rparr>"

text \<open>The buffers \<open>svg_to_obj\<close> holds when it starts writing the file.\<close>

definition svg_to_obj_mesh ::
  "(pyfloat \<Rightarrow> nat \<Rightarrow> pyfloat) \<Rightarrow> pyfloat \<Rightarrow> pyfloat \<Rightarrow> string option list
     \<Rightarrow> py_error + mesh" where
  "svg_to_obj_mesh pw scale depth paths = process_paths pw scale depth empty_mesh paths"

subsection \<open>The cubic Bezier curve of the specification\<close>




text \<open>
  A value that a float variable of the program can hold: a double, an infinity or NaN. The
  coordinates that the parser keeps are such values.
\<close>

definition float_value :: "pyfloat \<Rightarrow> bool" where
  "float_value a = (case a of Fin x \<Rightarrow> is_double x | _ \<Rightarrow> True)"

definition float_state :: "pstate \<Rightarrow> bool" where
  "float_state st =
     (float_value (current_x st) \<and> float_value (current_y st) \<and>
      float_value (start_x st) \<and> float_value (start_y st))"

subsection \<open>Tokens and operands, in the words of the specification\<close>

text \<open>
  The specification speaks of two kinds of token: a command letter, and a numeric literal.
  A command token is a token that consists of one command letter.
\<close>

definition is_command_token :: "string \<Rightarrow> bool" where
  "is_command_token t = (case t of [] \<Rightarrow> False | c # r \<Rightarrow> r = [] \<and> is_cmd_letter c)"

text \<open>
  The required operand count of a command: 2 for Move and Line, 1 for Horizontal and
  Vertical line, 6 for Cubic, 0 for Close.
\<close>

definition operand_count :: "string \<Rightarrow> nat" where
  "operand_count t =
     (if t \<in> {''M'', ''m'', ''L'', ''l''} then 2
      else if t \<in> {''H'', ''h'', ''V'', ''v''} then 1
      else if t \<in> {''C'', ''c''} then 6
      else 0)"

text \<open>
  The command at index \<open>j\<close> of a token list is short of operands when the numeric tokens
  that directly follow it are fewer than its operand count. The tokenizer yields command
  tokens and numeric tokens only, so the numeric tokens after a command are the tokens up
  to the next command token.
\<close>

definition short_at :: "string list \<Rightarrow> nat \<Rightarrow> bool" where
  "short_at ts j =
     (is_command_token (ts ! j) \<and>
      length (takeWhile (\<lambda>t. \<not> is_command_token t) (drop (Suc j) ts)) < operand_count (ts ! j))"

text \<open>A token list is short of operands when one of its commands is.\<close>

definition short_of_operands :: "string list \<Rightarrow> bool" where
  "short_of_operands ts = list_ex (short_at ts) [0..<length ts]"

text \<open>
  The first command that is short of operands, and the exception of a token list: none
  when no command is short; otherwise \<open>IndexError\<close> when the numeric tokens after the
  first short command run to the end of the list (the tokens end before its operands are
  complete), and \<open>ValueError\<close> when they stop at another command letter (a command
  letter stands where an operand is expected).
\<close>

definition first_short :: "string list \<Rightarrow> nat option" where
  "first_short ts = find (short_at ts) [0..<length ts]"

definition failure_kind :: "string list \<Rightarrow> py_error option" where
  "failure_kind ts =
     (case first_short ts of
        None \<Rightarrow> None
      | Some j \<Rightarrow>
          Some (if length (takeWhile (\<lambda>t. \<not> is_command_token t) (drop (Suc j) ts))
                     = length (drop (Suc j) ts)
                then IndexError else ValueError))"

text \<open>
  A numeric token, as the parser meets it: it does not start with a command letter, and
  \<open>float\<close> returns a value on it.
\<close>

definition number_token :: "string \<Rightarrow> bool" where
  "number_token t = (t \<noteq> [] \<and> \<not> is_cmd_letter (hd t) \<and> \<not> isl (py_float t))"

text \<open>
  The shape of a numeric literal of the tokenizer's pattern: an optional sign, digits, an
  optional dot with at least one digit (digits before the dot may then be missing), and
  an optional exponent made of a letter, an optional sign and at least one digit.
\<close>

definition number_shape :: "string \<Rightarrow> bool" where
  "number_shape t = (\<exists>sg ip fr ex.
      t = sg @ ip @ fr @ ex \<and>
      (sg = [] \<or> (\<exists>g. sg = [g] \<and> is_sign g)) \<and>
      list_all is_digit ip \<and>
      ((fr = [] \<and> ip \<noteq> []) \<or>
       (\<exists>fp. fr = CHR ''.'' # fp \<and> fp \<noteq> [] \<and> list_all is_digit fp)) \<and>
      (ex = [] \<or>
       (\<exists>e esg ed. ex = e # esg @ ed \<and> is_exp_letter e \<and>
          (esg = [] \<or> (\<exists>g. esg = [g] \<and> is_sign g)) \<and> ed \<noteq> [] \<and> list_all is_digit ed)))"

subsection \<open>Rounding leaves small integers as they are\<close>

lemma pow2_pos: "0 < pow2 e"
  by (simp add: pow2_def)

lemma pow2_powi: "pow2 e = 2 powi e"
  by (simp add: pow2_def power_int_def field_simps)

lemma pow2_add: "pow2 (a + b) = pow2 a * pow2 b"
  by (simp add: pow2_powi power_int_add)

lemma pow2_mono: "a \<le> b \<Longrightarrow> pow2 a \<le> pow2 b"
  by (simp add: pow2_powi power_int_increasing)

lemma pow2_less_cancel: "pow2 a < pow2 b \<Longrightarrow> a < b"
  using pow2_mono [of b a] by (cases "a < b") auto

lemma floor_log2_le:
  assumes "x \<noteq> 0"
  shows "pow2 (floor_log2 x) \<le> \<bar>x\<bar>"
proof -
  obtain p q where pq: "quotient_of \<bar>x\<bar> = (p, q)" by (cases "quotient_of \<bar>x\<bar>")
  then have q: "0 < q" and x: "\<bar>x\<bar> = of_int p / of_int q"
    by (simp_all add: quotient_of_denom_pos quotient_of_div)
  from assms have "0 < \<bar>x\<bar>" by simp
  with x q have p: "0 < p"
    by (simp add: zero_less_divide_iff)
  let ?lp = "floorlog 2 (nat p)" and ?lq = "floorlog 2 (nat q)"
  let ?d = "int ?lp - int ?lq"
  show ?thesis
  proof (cases "pow2 ?d \<le> \<bar>x\<bar>")
    case True
    then show ?thesis by (simp add: floor_log2_def pq)
  next
    case False
    then have fl: "floor_log2 x = ?d - 1" by (simp add: floor_log2_def pq)
    from p have lp: "2 ^ (?lp - 1) \<le> nat p"
      using floorlog_bounds [of "nat p" 2] by simp
    from p have "?lp \<noteq> 0" by (simp add: floorlog_eq_zero_iff)
    then have lp0: "0 < ?lp" by simp
    from q have lq: "nat q < 2 ^ ?lq"
      using floorlog_bounds [of "nat q" 2] by simp
    from lp p have lp': "(2::rat) ^ (?lp - 1) \<le> of_int p"
      by (metis nat_0_le of_int_of_nat_eq of_nat_le_iff of_nat_numeral of_nat_power order_less_imp_le)
    from lq q have lq': "of_int q < (2::rat) ^ ?lq"
      by (metis nat_0_le of_int_of_nat_eq of_nat_less_iff of_nat_numeral of_nat_power order_less_imp_le)
    have "pow2 (?d - 1) = 2 ^ (?lp - 1) / 2 ^ ?lq"
    proof -
      have "?d - 1 = int (?lp - 1) + - int ?lq"
        using lp0 by (simp add: of_nat_diff)
      then have "pow2 (?d - 1) = pow2 (int (?lp - 1) + - int ?lq)"
        by (simp only:)
      also have "\<dots> = pow2 (int (?lp - 1)) * pow2 (- int ?lq)"
        by (rule pow2_add)
      also have "\<dots> = 2 ^ (?lp - 1) / 2 ^ ?lq"
        by (simp add: pow2_def)
      finally show ?thesis .
    qed
    also have "\<dots> \<le> of_int p / of_int q"
      using lp' lq' q p by (intro frac_le) simp_all
    finally show ?thesis using fl x by simp
  qed
qed

lemma round_half_even_int: "round_half_even (of_int k) = k"
  by (simp add: round_half_even_def)

lemma to_double_of_int:
  assumes "\<bar>k\<bar> < 2 ^ 53"
  shows "to_double (of_int k) = Fin (of_int k)"
proof (cases "k = 0")
  case True
  then show ?thesis by (simp add: to_double_def)
next
  case False
  let ?x = "of_int k :: rat"
  from False have x0: "?x \<noteq> 0" by simp
  have "\<bar>?x\<bar> = of_int \<bar>k\<bar>" by simp
  also have "\<dots> < of_int (2 ^ 53)" using assms by (simp only: of_int_less_iff)
  finally have small: "\<bar>?x\<bar> < 2 ^ 53" by simp
  have "(2::rat) ^ 53 < pow2 1024 - pow2 970"
    by (simp add: pow2_def)
  with small have no_overflow: "\<not> pow2 1024 - pow2 970 \<le> \<bar>?x\<bar>" by simp
  have "pow2 (floor_log2 ?x) < pow2 53"
    using floor_log2_le [OF x0] small by (simp add: pow2_def)
  then have "floor_log2 ?x < 53"
    by (rule pow2_less_cancel)
  then have "max (floor_log2 ?x - 52) (- 1074) \<le> 0" by simp
  then obtain j where j: "max (floor_log2 ?x - 52) (- 1074) = - int j"
    by (metis neg_le_0_iff_le nonneg_int_cases minus_minus)
  have u: "pow2 (- int j) = 1 / 2 ^ j"
    by (cases "j = 0") (simp_all add: pow2_def)
  have "?x / pow2 (- int j) = of_int (k * 2 ^ j)"
    by (simp add: u)
  then have "round_half_even (?x / pow2 (- int j)) = k * 2 ^ j"
    by (simp only: round_half_even_int)
  then have "of_int (round_half_even (?x / pow2 (- int j))) * pow2 (- int j) = ?x"
    by (simp add: u)
  with x0 no_overflow j show ?thesis
    by (simp add: to_double_def Let_def)
qed

subsection \<open>Rounding twice is rounding once\<close>

lemma pow2_int: "pow2 (int n) = 2 ^ n" "pow2 (- int n) = 1 / 2 ^ n"
  by (cases "n = 0"; simp add: pow2_def)+

lemma floor_log2_less:
  assumes "x \<noteq> 0"
  shows "\<bar>x\<bar> < pow2 (floor_log2 x + 1)"
proof -
  obtain p q where pq: "quotient_of \<bar>x\<bar> = (p, q)" by (cases "quotient_of \<bar>x\<bar>")
  then have q: "0 < q" and x: "\<bar>x\<bar> = of_int p / of_int q"
    by (simp_all add: quotient_of_denom_pos quotient_of_div)
  from assms have "0 < \<bar>x\<bar>" by simp
  with x q have p: "0 < p"
    by (simp add: zero_less_divide_iff)
  let ?lp = "floorlog 2 (nat p)" and ?lq = "floorlog 2 (nat q)"
  let ?d = "int ?lp - int ?lq"
  show ?thesis
  proof (cases "pow2 ?d \<le> \<bar>x\<bar>")
    case False
    then show ?thesis by (simp add: floor_log2_def pq)
  next
    case True
    then have fl: "floor_log2 x = ?d" by (simp add: floor_log2_def pq)
    from p have lp: "nat p < 2 ^ ?lp"
      using floorlog_bounds [of "nat p" 2] by simp
    from q have lq: "2 ^ (?lq - 1) \<le> nat q"
      using floorlog_bounds [of "nat q" 2] by simp
    from q have "?lq \<noteq> 0" by (simp add: floorlog_eq_zero_iff)
    then have lq0: "0 < ?lq" by simp
    from lp p have lp': "of_int p < (2::rat) ^ ?lp"
      by (metis nat_0_le of_int_of_nat_eq of_nat_less_iff of_nat_numeral of_nat_power order_less_imp_le)
    from lq q have lq': "(2::rat) ^ (?lq - 1) \<le> of_int q"
      by (metis nat_0_le of_int_of_nat_eq of_nat_le_iff of_nat_numeral of_nat_power order_less_imp_le)
    have "(of_int p :: rat) / of_int q < 2 ^ ?lp / 2 ^ (?lq - 1)"
      using lp' lq' q p by (intro frac_less) simp_all
    also have "\<dots> = pow2 (?d + 1)"
    proof -
      have "?d + 1 = int ?lp + - int (?lq - 1)"
        using lq0 by (simp add: of_nat_diff)
      then have "pow2 (?d + 1) = pow2 (int ?lp + - int (?lq - 1))"
        by (simp only:)
      also have "\<dots> = pow2 (int ?lp) * pow2 (- int (?lq - 1))"
        by (rule pow2_add)
      also have "\<dots> = 2 ^ ?lp / 2 ^ (?lq - 1)"
        by (simp only: pow2_int) simp
      finally show ?thesis by simp
    qed
    finally show ?thesis using fl x by simp
  qed
qed

lemma round_half_even_close: "\<bar>of_int (round_half_even q) - q\<bar> \<le> 1 / 2"
proof -
  have "of_int \<lfloor>q\<rfloor> \<le> q" "q < of_int \<lfloor>q\<rfloor> + 1"
    by linarith+
  then show ?thesis
    by (auto simp add: round_half_even_def Let_def abs_le_iff)
qed


lemma floor_log2_unique:
  assumes "pow2 a \<le> \<bar>x\<bar>" and "\<bar>x\<bar> < pow2 (a + 1)"
  shows "floor_log2 x = a"
proof -
  from assms(1) pow2_pos [of a] have x0: "x \<noteq> 0" by auto
  from floor_log2_le [OF x0] assms(2) have "pow2 (floor_log2 x) < pow2 (a + 1)" by simp
  then have "floor_log2 x < a + 1" by (rule pow2_less_cancel)
  moreover from floor_log2_less [OF x0] assms(1) have "pow2 a < pow2 (floor_log2 x + 1)" by simp
  then have "a < floor_log2 x + 1" by (rule pow2_less_cancel)
  ultimately show ?thesis by simp
qed

text \<open>A multiple of a power of two with a mantissa of at most 53 bits is a double.\<close>

lemma is_double_intro:
  assumes x: "x = of_int m * pow2 v" and m: "\<bar>m\<bar> < 2 ^ 53" and v: "- 1074 \<le> v"
    and range: "\<bar>x\<bar> < pow2 1024 - pow2 970"
  shows "to_double x = Fin x"
proof (cases "x = 0")
  case True
  then show ?thesis by (simp add: to_double_def)
next
  case False
  from range have no_overflow: "\<not> pow2 1024 - pow2 970 \<le> \<bar>x\<bar>" by simp
  have "\<bar>x\<bar> = of_int \<bar>m\<bar> * pow2 v"
    using pow2_pos [of v] by (simp add: x abs_mult)
  also have "\<dots> < of_int (2 ^ 53) * pow2 v"
    using m pow2_pos [of v] by (simp only: mult_less_cancel_right_pos of_int_less_iff)
  also have "\<dots> = pow2 (53 + v)"
    by (simp add: pow2_add) (simp add: pow2_def)
  finally have "\<bar>x\<bar> < pow2 (53 + v)" .
  with floor_log2_le [OF False] have "pow2 (floor_log2 x) < pow2 (53 + v)" by simp
  then have "floor_log2 x < 53 + v" by (rule pow2_less_cancel)
  with v have "max (floor_log2 x - 52) (- 1074) \<le> v" by simp
  then obtain j where j: "v = max (floor_log2 x - 52) (- 1074) + int j"
    by (metis add.commute diff_add_cancel diff_ge_0_iff_ge nonneg_int_cases)
  let ?u = "pow2 (max (floor_log2 x - 52) (- 1074))"
  have u0: "?u \<noteq> 0" using pow2_pos [of "max (floor_log2 x - 52) (- 1074)"] by simp
  have "pow2 v = pow2 (max (floor_log2 x - 52) (- 1074) + int j)"
    using j by (simp only:)
  also have "\<dots> = ?u * 2 ^ j"
    by (simp only: pow2_add pow2_int)
  finally have pv: "pow2 v = ?u * 2 ^ j" .
  have "x = of_int m * pow2 v" by (rule x)
  also have "\<dots> = of_int m * (?u * 2 ^ j)" by (simp only: pv)
  also have "\<dots> = of_int (m * 2 ^ j) * ?u" by simp
  finally have xu: "x = of_int (m * 2 ^ j) * ?u" .
  have "x / ?u = of_int (m * 2 ^ j) * ?u / ?u"
    using xu by (rule arg_cong)
  also have "\<dots> = of_int (m * 2 ^ j)"
    using u0 by simp
  finally have "x / ?u = of_int (m * 2 ^ j)" .
  then have "round_half_even (x / ?u) = m * 2 ^ j"
    by (simp only: round_half_even_int)
  then have "of_int (round_half_even (x / ?u)) * ?u = of_int (m * 2 ^ j) * ?u"
    by (simp only:)
  with xu have "of_int (round_half_even (x / ?u)) * ?u = x"
    by (simp only:)
  with False no_overflow show ?thesis
    by (simp add: to_double_def Let_def)
qed


text \<open>Every finite result of rounding is a double: rounding it again changes nothing.\<close>

lemma to_double_idem:
  assumes "to_double x = Fin r"
  shows "to_double r = Fin r"
proof (cases "x = 0")
  case True
  with assms show ?thesis by (simp add: to_double_def)
next
  case False
  let ?T = "pow2 1024 - pow2 970"
  from assms False have range: "\<bar>x\<bar> < ?T"
    by (cases "?T \<le> \<bar>x\<bar>") (simp_all add: to_double_def split: if_splits)
  let ?e = "floor_log2 x"
  let ?ue = "max (?e - 52) (- 1074)"
  let ?u = "pow2 ?ue"
  let ?n = "round_half_even (x / ?u)"
  from assms False range have r: "r = of_int ?n * ?u"
    by (simp add: to_double_def Let_def)
  have u: "0 < ?u" by (rule pow2_pos)
  have T1024: "?T < pow2 1024" using pow2_pos [of 970] by simp
  from floor_log2_le [OF False] range T1024 have "pow2 ?e < pow2 1024" by simp
  then have e: "?e < 1024" by (rule pow2_less_cancel)
  then have ue971: "?ue \<le> 971" by simp
  have ue: "- 1074 \<le> ?ue" by simp
  have q: "\<bar>x / ?u\<bar> < 2 ^ 53"
  proof -
    have "\<bar>x\<bar> < pow2 (?e + 1)" by (rule floor_log2_less [OF False])
    also have "\<dots> \<le> pow2 (53 + ?ue)" by (rule pow2_mono) simp
    also have "\<dots> = 2 ^ 53 * ?u" by (simp only: pow2_add) (simp add: pow2_def)
    finally have "\<bar>x\<bar> / ?u < 2 ^ 53" using u by (simp add: pos_divide_less_eq)
    with u show ?thesis by simp
  qed
  have close: "\<bar>of_int ?n - x / ?u\<bar> \<le> 1 / 2" by (rule round_half_even_close)
  have "\<bar>(of_int ?n :: rat)\<bar> < 2 ^ 53 + 1"
    using q close by linarith
  then have "(of_int \<bar>?n\<bar> :: rat) < of_int (2 ^ 53 + 1)" by simp
  then have "\<bar>?n\<bar> < 2 ^ 53 + 1" by (simp only: of_int_less_iff)
  then have n: "\<bar>?n\<bar> \<le> 2 ^ 53" by simp
  show ?thesis
  proof (cases "\<bar>?n\<bar> < 2 ^ 53")
    case True
    then have "\<bar>?n\<bar> \<le> 2 ^ 53 - 1" by simp
    then have "(of_int \<bar>?n\<bar> :: rat) \<le> of_int (2 ^ 53 - 1)" by (simp only: of_int_le_iff)
    then have "\<bar>(of_int ?n :: rat)\<bar> \<le> 2 ^ 53 - 1" by simp
    then have "\<bar>(of_int ?n :: rat)\<bar> * ?u \<le> (2 ^ 53 - 1) * ?u"
      using u by (simp only: mult_le_cancel_right_pos)
    also have "\<dots> \<le> (2 ^ 53 - 1) * pow2 971"
      using pow2_mono [OF ue971] by (simp add: mult_left_mono)
    also have "\<dots> < ?T" by (simp add: pow2_def)
    finally have "\<bar>r\<bar> < ?T" using u by (simp add: r abs_mult)
    from is_double_intro [OF r True ue this] show ?thesis .
  next
    case False
    with n have big: "\<bar>?n\<bar> = 2 ^ 53" by simp
    then obtain m where m: "?n = 2 * m" "\<bar>m\<bar> = 2 ^ 52"
      by (cases "0 \<le> ?n") (auto intro: that [of "2 ^ 52"] that [of "- (2 ^ 52)"])
    have ue970: "?ue \<le> 970"
    proof (rule ccontr)
      assume "\<not> ?ue \<le> 970"
      with ue971 have eq: "?ue = 971" by simp
      have "\<bar>x\<bar> / ?u < ?T / ?u" using range u by (simp add: divide_strict_right_mono)
      also have "?T / ?u = 2 ^ 53 - 1 / 2" unfolding eq by (simp add: pow2_def)
      finally have "\<bar>x / ?u\<bar> < 2 ^ 53 - 1 / 2" using u by simp
      with close have "\<bar>(of_int ?n :: rat)\<bar> < 2 ^ 53" by linarith
      then have "(of_int \<bar>?n\<bar> :: rat) < of_int (2 ^ 53)" by simp
      then have "\<bar>?n\<bar> < 2 ^ 53" by (simp only: of_int_less_iff)
      with big show False by simp
    qed
    have "r = of_int m * (2 * ?u)" by (simp add: r m(1))
    also have "2 * ?u = pow2 (?ue + 1)" by (simp only: pow2_add) (simp add: pow2_def)
    finally have r': "r = of_int m * pow2 (?ue + 1)" .
    have m53: "\<bar>m\<bar> < 2 ^ 53" using m(2) by simp
    have v: "- 1074 \<le> ?ue + 1" by simp
    have "\<bar>r\<bar> = of_int \<bar>m\<bar> * pow2 (?ue + 1)"
      using pow2_pos [of "?ue + 1"] by (simp add: r' abs_mult)
    also have "\<dots> = 2 ^ 52 * pow2 (?ue + 1)" by (simp add: m(2))
    also have "\<dots> \<le> 2 ^ 52 * pow2 971"
      using pow2_mono [of "?ue + 1" 971] ue970 by (simp add: mult_left_mono)
    also have "\<dots> < ?T" by (simp add: pow2_def)
    finally have "\<bar>r\<bar> < ?T" .
    from is_double_intro [OF r' m53 v this] show ?thesis .
  qed
qed

subsection \<open>Float arithmetic on small integers\<close>

lemma to_double_numeral:
  "numeral n < (2::int) ^ 53 \<Longrightarrow> to_double (numeral n) = Fin (numeral n)"
  "numeral n < (2::int) ^ 53 \<Longrightarrow> to_double (- numeral n) = Fin (- numeral n)"
  "to_double 0 = Fin 0"
  "to_double 1 = Fin 1"
  "to_double (- 1) = Fin (- 1)"
  using to_double_of_int [of "numeral n"] to_double_of_int [of "- numeral n"]
    to_double_of_int [of 0] to_double_of_int [of 1] to_double_of_int [of "- 1"]
  by simp_all

text \<open>Float arithmetic, unfolded to rounding of the exact result.\<close>

lemmas float_ops = plus_pyfloat_def minus_pyfloat_def times_pyfloat_def uminus_pyfloat_def
  to_double_numeral

lemma float_small_examples:
  "Fin 0 + Fin 10 = Fin 10" "Fin 10 + Fin (- 10) = Fin 0" "Fin 3 * Fin 4 = Fin 12"
  "Fin 1 - Fin 1 = Fin 0" "- Fin 4 * Fin 1 = Fin (- 4)" "div2 (Fin 2) = Fin 1"
  "div2 (- Fin 2) = Fin (- 1)"
  by (simp_all add: float_ops)

text \<open>The finite floats that \<open>float\<close> and the arithmetic return are doubles.\<close>

lemma rounded_results_are_doubles:
  "to_double x = Fin r \<Longrightarrow> is_double r"
  "py_float s = Inr (Fin r) \<Longrightarrow> is_double r"
  "Fin a + Fin b = Fin r \<Longrightarrow> is_double r"
  "Fin a * Fin b = Fin r \<Longrightarrow> is_double r"
  "div2 (Fin a) = Fin r \<Longrightarrow> is_double r"
  by (auto simp add: is_double_def float_ops py_float_def Let_def
      split: option.splits dest: to_double_idem)

lemma float_add_finite: "a + b = Fin r \<Longrightarrow> is_double r"
  by (cases a; cases b) (auto simp add: is_double_def float_ops dest: to_double_idem)

subsection \<open>Loops that append\<close>

lemma foldl_append_one: "foldl (\<lambda>acc x. acc @ [f x]) a xs = a @ map f xs"
  by (induction xs arbitrary: a) simp_all

lemma foldl_append_many: "foldl (\<lambda>acc x. acc @ f x) a xs = a @ concat (map f xs)"
  by (induction xs arbitrary: a) simp_all

lemma triangulate_as_map:
  "triangulate_polygon_earclip ps =
     (if length ps < 3 then [] else map (\<lambda>i. (0, i, i + 1)) [1..<length ps - 1])"
  by (simp add: triangulate_polygon_earclip_def foldl_append_one)

lemma length_triangulate: "length (triangulate_polygon_earclip ps) = length ps - 2"
  by (cases "length ps < 3") (simp_all add: triangulate_as_map)

subsection \<open>The fan triangulation\<close>

text \<open>
  C3. On fewer than three points the triangulation is empty. On \<open>n \<ge> 3\<close> points it is
  the list of the triangles \<open>(0, i, i + 1)\<close> for \<open>i\<close> from \<open>1\<close> to \<open>n - 2\<close>, in that
  order: it has \<open>n - 2\<close> entries and its \<open>k\<close>-th entry (from 0) is
  \<open>(0, k + 1, k + 2)\<close>. On the four corners of a square it is \<open>[(0,1,2), (0,2,3)]\<close>.
\<close>

theorem triangulate_fan:
  "(length ps < 3 \<longrightarrow> triangulate_polygon_earclip ps = []) \<and>
   (3 \<le> length ps \<longrightarrow>
      triangulate_polygon_earclip ps = map (\<lambda>i. (0, i, i + 1)) [1..<length ps - 1] \<and>
      length (triangulate_polygon_earclip ps) = length ps - 2 \<and>
      (\<forall>k < length ps - 2. triangulate_polygon_earclip ps ! k = (0, k + 1, k + 2))) \<and>
   triangulate_polygon_earclip [(Fin 0, Fin 0), (Fin 4, Fin 0), (Fin 4, Fin 4), (Fin 0, Fin 4)] = [(0, 1, 2), (0, 2, 3)]"
proof -
  have small: "length ps < 3 \<longrightarrow> triangulate_polygon_earclip ps = []"
    by (simp add: triangulate_as_map)
  have big: "3 \<le> length ps \<longrightarrow>
      triangulate_polygon_earclip ps = map (\<lambda>i. (0, i, i + 1)) [1..<length ps - 1] \<and>
      length (triangulate_polygon_earclip ps) = length ps - 2 \<and>
      (\<forall>k < length ps - 2. triangulate_polygon_earclip ps ! k = (0, k + 1, k + 2))"
    by (auto simp add: triangulate_as_map)
  have "[1..<3] = [1, 2::nat]"
    by (simp add: upt_conv_Cons)
  then have square: "triangulate_polygon_earclip [(Fin 0, Fin 0), (Fin 4, Fin 0), (Fin 4, Fin 4), (Fin 0, Fin 4)]
      = [(0, 1, 2), (0, 2, 3)]"
    by (simp add: triangulate_as_map)
  from small big square show ?thesis by blast
qed

theorem triangulate_fan_witness:
  "triangulate_polygon_earclip [(Fin 0, Fin 0), (Fin 1, Fin 0)] = [] \<and>
   triangulate_polygon_earclip [(Fin 0, Fin 0), (Fin 1, Fin 0), (Fin 1, Fin 1), (Fin 0, Fin 1), (Fin (-1), Fin 0)] ! 2 = (0, 3, 4) \<and>
   length (triangulate_polygon_earclip [(Fin 0, Fin 0), (Fin 1, Fin 0), (Fin 1, Fin 1), (Fin 0, Fin 1), (Fin (-1), Fin 0)]) = 3"
proof -
  have a: "triangulate_polygon_earclip [(Fin 0, Fin 0), (Fin 1, Fin 0)] = []"
    using triangulate_fan [of "[(Fin 0, Fin 0), (Fin 1, Fin 0)]"] by simp
  have b: "triangulate_polygon_earclip [(Fin 0, Fin 0), (Fin 1, Fin 0), (Fin 1, Fin 1), (Fin 0, Fin 1), (Fin (-1), Fin 0)] ! 2 = (0, 3, 4) \<and>
    length (triangulate_polygon_earclip [(Fin 0, Fin 0), (Fin 1, Fin 0), (Fin 1, Fin 1), (Fin 0, Fin 1), (Fin (-1), Fin 0)]) = 3"
    using triangulate_fan [of "[(Fin 0, Fin 0), (Fin 1, Fin 0), (Fin 1, Fin 1), (Fin 0, Fin 1), (Fin (-1), Fin 0)]"] by simp
  from a b show ?thesis by simp
qed

text \<open>
  C10. On \<open>n\<close> points the triangulation has \<open>max(0, n - 2)\<close> triangles, and every index
  in a triangle is below \<open>n\<close>, so it addresses a point of the input.
\<close>

theorem triangulate_indices_valid:
  "int (length (triangulate_polygon_earclip ps)) = max 0 (int (length ps) - 2) \<and>
   (\<forall>(a, b, c) \<in> set (triangulate_polygon_earclip ps).
      a < length ps \<and> b < length ps \<and> c < length ps)"
proof
  show "int (length (triangulate_polygon_earclip ps)) = max 0 (int (length ps) - 2)"
    by (simp add: length_triangulate)
  show "\<forall>(a, b, c) \<in> set (triangulate_polygon_earclip ps).
      a < length ps \<and> b < length ps \<and> c < length ps"
    by (auto simp add: triangulate_as_map)
qed

theorem triangulate_indices_valid_witness:
  "int (length (triangulate_polygon_earclip [(Fin 0, Fin 0), (Fin 4, Fin 0), (Fin 4, Fin 4), (Fin 0, Fin 4)])) = 2 \<and>
   (0, 2, 3) \<in> set (triangulate_polygon_earclip [(Fin 0, Fin 0), (Fin 4, Fin 0), (Fin 4, Fin 4), (Fin 0, Fin 4)]) \<and>
   (3::nat) < length [(Fin 0, Fin 0), (Fin 4, Fin 0), (Fin 4, Fin 4), (Fin 0, Fin 4)]"
proof -
  have "[1..<3] = [1, 2::nat]"
    by (simp add: upt_conv_Cons)
  then have mem: "(0, 2, 3) \<in> set (triangulate_polygon_earclip [(Fin 0, Fin 0), (Fin 4, Fin 0), (Fin 4, Fin 4), (Fin 0, Fin 4)])"
    by (simp add: triangulate_as_map)
  from triangulate_indices_valid [of "[(Fin 0, Fin 0), (Fin 4, Fin 0), (Fin 4, Fin 4), (Fin 0, Fin 4)]"]
  have len: "int (length (triangulate_polygon_earclip [(Fin 0, Fin 0), (Fin 4, Fin 0), (Fin 4, Fin 4), (Fin 0, Fin 4)])) = 2"
    and all: "\<forall>(a, b, c) \<in> set (triangulate_polygon_earclip [(Fin 0, Fin 0), (Fin 4, Fin 0), (Fin 4, Fin 4), (Fin 0, Fin 4)]).
      a < length [(Fin 0, Fin 0), (Fin 4, Fin 0), (Fin 4, Fin 4), (Fin 0, Fin 4)] \<and>
      b < length [(Fin 0, Fin 0), (Fin 4, Fin 0), (Fin 4, Fin 4), (Fin 0, Fin 4)] \<and>
      c < length [(Fin 0, Fin 0), (Fin 4, Fin 0), (Fin 4, Fin 4), (Fin 0, Fin 4)]"
    by simp_all
  from all mem have "(3::nat) < length [(Fin 0, Fin 0), (Fin 4, Fin 0), (Fin 4, Fin 4), (Fin 0, Fin 4)]"
    by blast
  with len mem show ?thesis by blast
qed

subsection \<open>Unfolding sets for evaluation\<close>

lemmas tokenizer_defs = is_cmd_letter_def is_digit_def is_sign_def is_exp_letter_def
  match_mantissa_def match_exponent_def match_number_def Let_def

lemmas float_defs = py_float_def float_mantissa_def float_exponent_def digits_value_def
  digit_value_def is_digit_def is_sign_def is_exp_letter_def Let_def to_double_numeral

subsection \<open>The extrusion of one polygon\<close>

lemma foldl_append_pair:
  "foldl (\<lambda>acc (x, y). acc @ [f x y]) a xs = a @ map (\<lambda>(x, y). f x y) xs"
  by (induction xs arbitrary: a) auto

lemma foldl_append_triple:
  "foldl (\<lambda>acc (x, y, z). acc @ [f x y z]) a xs = a @ map (\<lambda>(x, y, z). f x y z) xs"
  by (induction xs arbitrary: a) auto


lemma scale_points_map: "scale_points scale pts = map (\<lambda>(x, y). (x * scale, - y * scale)) pts"
  by (simp add: scale_points_def foldl_append_pair)

lemma extrude_vertices:
  "vertices (extrude_into m ps depth) =
     vertices m @ map (\<lambda>(x, y). (x, y, div2 depth)) ps @ map (\<lambda>(x, y). (x, y, div2 (- depth))) ps"
  by (simp add: extrude_into_def Let_def foldl_append_pair)

lemma extrude_faces:
  "faces (extrude_into m ps depth) =
     faces m
     @ map (\<lambda>(a, b, c). (length (vertices m) + a + 1, length (vertices m) + b + 1,
                               length (vertices m) + c + 1))
         (triangulate_polygon_earclip ps)
     @ map (\<lambda>(a, b, c). (length (vertices m) + length ps + a + 1,
                               length (vertices m) + length ps + c + 1,
                               length (vertices m) + length ps + b + 1))
         (triangulate_polygon_earclip ps)
     @ concat (map (\<lambda>i. [(length (vertices m) + i + 1, length (vertices m) + length ps + i + 1,
                             length (vertices m) + length ps + (i + 1) mod length ps + 1),
                            (length (vertices m) + i + 1,
                             length (vertices m) + length ps + (i + 1) mod length ps + 1,
                             length (vertices m) + (i + 1) mod length ps + 1)])
                 [0..<length ps])"
  by (simp add: extrude_into_def Let_def foldl_append_pair foldl_append_triple foldl_append_many)



subsection \<open>The square example\<close>

lemma square_range: "[0..<4] = [0, 1, 2, 3::nat]" "[1..<3] = [1, 2::nat]"
  by (simp_all add: upt_conv_Cons)

lemma square_faces:
  "faces (extrude_into empty_mesh [(Fin 0, Fin 0), (Fin 4, Fin 0), (Fin 4, Fin 4), (Fin 0, Fin 4)] (Fin 2)) =
     [(1, 2, 3), (1, 3, 4), (5, 7, 6), (5, 8, 7),
      (1, 5, 6), (1, 6, 2), (2, 6, 7), (2, 7, 3), (3, 7, 8), (3, 8, 4), (4, 8, 5), (4, 5, 1)]"
  by (simp add: extrude_faces empty_mesh_def triangulate_as_map square_range)

text \<open>
  C5. Of the faces the extrusion of a polygon appends, the first \<open>length T\<close> are the front
  cap and the next \<open>length T\<close> the back cap, where \<open>T\<close> is the triangulation of the
  polygon. A triangle \<open>(a, b, c)\<close> of \<open>T\<close> gives the front face \<open>(a, b, c)\<close> over the
  front vertices and, at the same position, the back face \<open>(a, c, b)\<close> over the back
  vertices, which lie \<open>N\<close> further in the buffer (indices are 1-based in the buffers). On
  the square the front triangle \<open>(0, 1, 2)\<close> is paired with the back triangle \<open>(0, 2, 1)\<close>.
\<close>

theorem back_cap_reverses_front_cap:
  "(let T = triangulate_polygon_earclip ps;
        F = length (vertices m);
        B = F + length ps;
        new = drop (length (faces m)) (faces (extrude_into m ps depth));
        front = take (length T) new;
        rear = take (length T) (drop (length T) new)
    in front = map (\<lambda>(a, b, c). (F + a + 1, F + b + 1, F + c + 1)) T \<and>
       rear = map (\<lambda>(a, b, c). (B + a + 1, B + c + 1, B + b + 1)) T \<and>
       rear = map (\<lambda>(a, b, c). (a + length ps, c + length ps, b + length ps)) front) \<and>
   take 2 (faces (extrude_into empty_mesh [(Fin 0, Fin 0), (Fin 4, Fin 0), (Fin 4, Fin 4), (Fin 0, Fin 4)] (Fin 2)))
     = map (\<lambda>(a, b, c). (0 + a + 1, 0 + b + 1, 0 + c + 1)) [(0, 1, 2), (0, 2, 3)] \<and>
   take 2 (drop 2 (faces (extrude_into empty_mesh [(Fin 0, Fin 0), (Fin 4, Fin 0), (Fin 4, Fin 4), (Fin 0, Fin 4)] (Fin 2))))
     = map (\<lambda>(a, b, c). (4 + a + 1, 4 + b + 1, 4 + c + 1)) [(0, 2, 1), (0, 3, 2)]"
proof -
  have general: "(let T = triangulate_polygon_earclip ps;
        F = length (vertices m);
        B = F + length ps;
        new = drop (length (faces m)) (faces (extrude_into m ps depth));
        front = take (length T) new;
        rear = take (length T) (drop (length T) new)
    in front = map (\<lambda>(a, b, c). (F + a + 1, F + b + 1, F + c + 1)) T \<and>
       rear = map (\<lambda>(a, b, c). (B + a + 1, B + c + 1, B + b + 1)) T \<and>
       rear = map (\<lambda>(a, b, c). (a + length ps, c + length ps, b + length ps)) front)"
    by (simp add: Let_def extrude_faces split_def)
  have square: "take 2 (faces (extrude_into empty_mesh [(Fin 0, Fin 0), (Fin 4, Fin 0), (Fin 4, Fin 4), (Fin 0, Fin 4)] (Fin 2)))
     = map (\<lambda>(a, b, c). (0 + a + 1, 0 + b + 1, 0 + c + 1)) [(0, 1, 2), (0, 2, 3)] \<and>
   take 2 (drop 2 (faces (extrude_into empty_mesh [(Fin 0, Fin 0), (Fin 4, Fin 0), (Fin 4, Fin 4), (Fin 0, Fin 4)] (Fin 2))))
     = map (\<lambda>(a, b, c). (4 + a + 1, 4 + b + 1, 4 + c + 1)) [(0, 2, 1), (0, 3, 2)]"
    by (simp add: square_faces)
  from general square show ?thesis by (rule conjI)
qed

subsection \<open>Parsing the example paths\<close>

lemma tokens_abs_square:
  "tokenize ''M0,0 L10,0 L10,10 L0,10 Z'' =
     [''M'', ''0'', ''0'', ''L'', ''10'', ''0'', ''L'', ''10'', ''10'', ''L'', ''0'', ''10'', ''Z'']"
  by (simp add: tokenizer_defs)

lemma tokens_rel_square:
  "tokenize ''M0,0 l10,0 l0,10 l-10,0 Z'' =
     [''M'', ''0'', ''0'', ''l'', ''10'', ''0'', ''l'', ''0'', ''10'', ''l'', ''-10'', ''0'', ''Z'']"
  by (simp add: tokenizer_defs)

lemma tokens_two_points:
  "tokenize ''M0,0 L1,1'' = [''M'', ''0'', ''0'', ''L'', ''1'', ''1'']"
  by (simp add: tokenizer_defs)

lemma float_literals:
  "py_float ''0'' = Inr (Fin 0)" "py_float ''1'' = Inr (Fin 1)" "py_float ''10'' = Inr (Fin 10)"
  "py_float ''-10'' = Inr (Fin (- 10))"
  by (simp_all add: float_defs)

lemmas parser_defs = initial_pstate_def parse_cmd_def float_at_def current_differs_def
  item_eq_def float_eq_def Let_def

lemma parse_abs_square:
  "parse_svg_path_robust pw ''M0,0 L10,0 L10,10 L0,10 Z'' =
     Inr [(Fin 0, Fin 0), (Fin 10, Fin 0), (Fin 10, Fin 10), (Fin 0, Fin 10), (Fin 0, Fin 0)]"
  unfolding parse_svg_path_robust_def tokens_abs_square
  by (simp add: parser_defs float_literals)

text \<open>
  C6. The path \<open>M0,0 L10,0 L10,10 L0,10 Z\<close> parses to the polyline
  \<open>[(0,0), (10,0), (10,10), (0,10), (0,0)]\<close>: when the parser reaches \<open>Z\<close> the current
  point \<open>(0, 10)\<close> differs from the subpath start \<open>(0, 0)\<close>, so the start is appended.
\<close>

theorem parse_square_example:
  "parse_svg_path_robust pw ''M0,0 L10,0 L10,10 L0,10 Z'' =
     Inr [(Fin 0, Fin 0), (Fin 10, Fin 0), (Fin 10, Fin 10), (Fin 0, Fin 10), (Fin 0, Fin 0)] \<and>
   parse_cmd pw
     \<lparr>points = [(Fin 0, Fin 0), (Fin 10, Fin 0), (Fin 10, Fin 10), (Fin 0, Fin 10)],
      current_x = Fin 0, current_y = Fin 10, start_x = Fin 0, start_y = Fin 0,
      x_shared = False, y_shared = False\<rparr> ''Z'' [] =
     Inr (\<lparr>points = [(Fin 0, Fin 0), (Fin 10, Fin 0), (Fin 10, Fin 10), (Fin 0, Fin 10),
                     (Fin 0, Fin 0)],
           current_x = Fin 0, current_y = Fin 0, start_x = Fin 0, start_y = Fin 0,
           x_shared = True, y_shared = True\<rparr>, 0)"
  by (simp add: parse_abs_square parser_defs)

text \<open>
  C7. The relative path \<open>M0,0 l10,0 l0,10 l-10,0 Z\<close> parses to the same polyline as the
  absolute path \<open>M0,0 L10,0 L10,10 L0,10 Z\<close>.
\<close>

theorem relative_equals_absolute:
  "parse_svg_path_robust pw ''M0,0 l10,0 l0,10 l-10,0 Z'' =
     parse_svg_path_robust pw ''M0,0 L10,0 L10,10 L0,10 Z'' \<and>
   parse_svg_path_robust pw ''M0,0 l10,0 l0,10 l-10,0 Z'' =
     Inr [(Fin 0, Fin 0), (Fin 10, Fin 0), (Fin 10, Fin 10), (Fin 0, Fin 10), (Fin 0, Fin 0)]"
proof -
  have rel: "parse_svg_path_robust pw ''M0,0 l10,0 l0,10 l-10,0 Z'' =
     Inr [(Fin 0, Fin 0), (Fin 10, Fin 0), (Fin 10, Fin 10), (Fin 0, Fin 10), (Fin 0, Fin 0)]"
    unfolding parse_svg_path_robust_def tokens_rel_square
    by (simp add: parser_defs float_literals float_ops)
  then show ?thesis
    by (simp only: parse_abs_square simp_thms)
qed

lemma parse_two_points:
  "parse_svg_path_robust pw ''M0,0 L1,1'' = Inr [(Fin 0, Fin 0), (Fin 1, Fin 1)]"
  unfolding parse_svg_path_robust_def tokens_two_points
  by (simp add: parser_defs float_literals)

subsection \<open>Degenerate paths\<close>

lemma foldl_bind_Inl:
  "foldl (\<lambda>r p. bind_err r (\<lambda>m. f m p)) (Inl e) ps = Inl e"
  by (induction ps) simp_all

lemma process_paths_foldl:
  "process_paths pw scale depth m ps =
     foldl (\<lambda>r p. bind_err r (\<lambda>m'. process_path pw scale depth m' p)) (Inr m) ps"
proof (induction ps arbitrary: m)
  case Nil
  show ?case by simp
next
  case (Cons p ps)
  show ?case
    by (cases "process_path pw scale depth m p") (simp_all add: Cons.IH foldl_bind_Inl)
qed

lemma process_paths_append:
  "process_paths pw scale depth m (xs @ ys) =
     bind_err (process_paths pw scale depth m xs) (\<lambda>m'. process_paths pw scale depth m' ys)"
proof (induction xs arbitrary: m)
  case Nil
  show ?case by simp
next
  case (Cons x xs)
  show ?case
    by (cases "process_path pw scale depth m x") (simp_all add: Cons.IH)
qed

text \<open>
  C8. A path whose \<open>d\<close> string parses to fewer than three points leaves the buffers as
  they are. The run over a list of paths that holds it goes on with the paths after it:
  its result is that of taking the other paths one after the other, each through the body
  of the loop, from the empty start; this is also the run over the list without it. So a
  degenerate path ends no run, and when another path raises an exception the run without
  the degenerate path raises it as well.
\<close>

theorem degenerate_path_skipped:
  assumes "parse_svg_path_robust pw d = Inr pts" and "length pts < 3"
  shows "process_path pw scale depth m (Some d) = Inr m \<and>
         process_paths pw scale depth m0 (before @ Some d # after) =
           foldl (\<lambda>r p. bind_err r (\<lambda>m'. process_path pw scale depth m' p)) (Inr m0)
             (before @ after) \<and>
         process_paths pw scale depth m0 (before @ Some d # after) =
           process_paths pw scale depth m0 (before @ after)"
proof -
  have skip: "process_path pw scale depth m' (Some d) = Inr m'" for m'
    using assms by (simp add: process_path_def)
  have same: "process_paths pw scale depth m0 (before @ Some d # after) =
           process_paths pw scale depth m0 (before @ after)"
    by (cases "process_paths pw scale depth m0 before")
       (simp_all add: process_paths_append skip)
  then have "process_paths pw scale depth m0 (before @ Some d # after) =
           foldl (\<lambda>r p. bind_err r (\<lambda>m'. process_path pw scale depth m' p)) (Inr m0)
             (before @ after)"
    by (simp only: process_paths_foldl)
  with skip same show ?thesis by simp
qed

lemma scaled_square:
  "scale_points (Fin 1)
     [(Fin 0, Fin 0), (Fin 10, Fin 0), (Fin 10, Fin 10), (Fin 0, Fin 10), (Fin 0, Fin 0)] =
   [(Fin 0, Fin 0), (Fin 10, Fin 0), (Fin 10, Fin (- 10)), (Fin 0, Fin (- 10)), (Fin 0, Fin 0)]"
  by (simp add: scale_points_def float_ops)

theorem degenerate_path_skipped_witness:
  "process_path rounded_pow (Fin 1) (Fin 2) empty_mesh (Some ''M0,0 L1,1'') = Inr empty_mesh \<and>
   process_paths rounded_pow (Fin 1) (Fin 2) empty_mesh
     [None, Some ''M0,0 L1,1'', Some ''M0,0 L10,0 L10,10 L0,10 Z''] =
   Inr (extrude_into empty_mesh
          [(Fin 0, Fin 0), (Fin 10, Fin 0), (Fin 10, Fin (- 10)), (Fin 0, Fin (- 10)),
           (Fin 0, Fin 0)] (Fin 2)) \<and>
   vertices (extrude_into empty_mesh
          [(Fin 0, Fin 0), (Fin 10, Fin 0), (Fin 10, Fin (- 10)), (Fin 0, Fin (- 10)),
           (Fin 0, Fin 0)] (Fin 2)) =
     [(Fin 0, Fin 0, Fin 1), (Fin 10, Fin 0, Fin 1), (Fin 10, Fin (- 10), Fin 1),
      (Fin 0, Fin (- 10), Fin 1), (Fin 0, Fin 0, Fin 1),
      (Fin 0, Fin 0, Fin (- 1)), (Fin 10, Fin 0, Fin (- 1)), (Fin 10, Fin (- 10), Fin (- 1)),
      (Fin 0, Fin (- 10), Fin (- 1)), (Fin 0, Fin 0, Fin (- 1))]"
proof -
  have short: "length [(Fin 0, Fin 0), (Fin 1, Fin 1)] < 3"
    by simp
  from degenerate_path_skipped [OF parse_two_points short,
      where pw = rounded_pow and scale = "Fin 1" and depth = "Fin 2" and m = empty_mesh
        and ?m0.0 = empty_mesh and before = "[None]"
        and after = "[Some ''M0,0 L10,0 L10,10 L0,10 Z'']"]
  show ?thesis
    by (simp add: process_path_def parse_abs_square scaled_square extrude_vertices
        empty_mesh_def float_ops)
qed

subsection \<open>Tokens\<close>

lemma match_number_pos: "match_number s = Some n \<Longrightarrow> 0 < n"
  by (auto simp add: match_number_def match_mantissa_def Let_def split: option.splits if_splits)

lemma tokenize_chars: "t \<in> set (tokenize s) \<Longrightarrow> t \<noteq> [] \<and> set t \<subseteq> set s"
proof (induction s arbitrary: t rule: tokenize.induct)
  case 1
  then show ?case by simp
next
  case (2 c cs)
  show ?case
  proof (cases "is_cmd_letter c")
    case True
    with 2 show ?thesis by auto
  next
    case False
    show ?thesis
    proof (cases "match_number (c # cs)")
      case None
      with False 2 show ?thesis by auto
    next
      case (Some n)
      then have pos: "0 < n" by (rule match_number_pos)
      from False Some "2.prems"
      have "t = take n (c # cs) \<or> t \<in> set (tokenize (drop n (c # cs)))"
        by simp
      then show ?thesis
      proof
        assume t: "t = take n (c # cs)"
        with pos have "t \<noteq> []" by (cases n) simp_all
        moreover from t have "set t \<subseteq> set (c # cs)" by (simp only: set_take_subset)
        ultimately show ?thesis by simp
      next
        assume "t \<in> set (tokenize (drop n (c # cs)))"
        with "2.IH"(3) [OF False Some] have "t \<noteq> [] \<and> set t \<subseteq> set (drop n (c # cs))"
          by simp
        moreover have "set (drop n (c # cs)) \<subseteq> set (c # cs)" by (rule set_drop_subset)
        ultimately show ?thesis by blast
      qed
    qed
  qed
qed

subsection \<open>Tokens that are no command\<close>

lemma py_in_no_letter:
  assumes "t \<noteq> []" and "\<not> is_cmd_letter (hd t)"
  shows "\<not> py_in t ''Mm''" "\<not> py_in t ''Ll''" "\<not> py_in t ''Hh''" "\<not> py_in t ''Vv''"
    "\<not> py_in t ''Cc''" "\<not> py_in t ''Zz''"
  using assms by (cases t; auto simp add: is_cmd_letter_def)+

lemma parse_cmd_skip:
  assumes "t \<noteq> []" and "\<not> is_cmd_letter (hd t)"
  shows "parse_cmd pw st t rest = Inr (st, 0)"
  by (simp add: parse_cmd_def py_in_no_letter [OF assms] del: py_in.simps)

lemma parse_loop_skip:
  "\<forall>t \<in> set ts. t \<noteq> [] \<and> \<not> is_cmd_letter (hd t) \<Longrightarrow> parse_loop pw st ts = Inr (points st)"
  by (induction ts) (simp_all add: parse_cmd_skip)

text \<open>
  C9. A string in which none of the letters \<open>M L H V Z C m l h v z c\<close> occurs, the empty
  string included, parses to the empty polyline, without an exception: its tokens are all
  numbers, and the loop passes over a number in command position.
\<close>

theorem no_command_gives_empty:
  assumes "\<forall>c \<in> set s. \<not> is_cmd_letter c"
  shows "parse_svg_path_robust pw s = Inr []"
proof -
  have "\<forall>t \<in> set (tokenize s). t \<noteq> [] \<and> \<not> is_cmd_letter (hd t)"
  proof
    fix t assume "t \<in> set (tokenize s)"
    then have t: "t \<noteq> []" "set t \<subseteq> set s" by (simp_all add: tokenize_chars)
    then have "hd t \<in> set s" by (cases t) auto
    with assms t(1) show "t \<noteq> [] \<and> \<not> is_cmd_letter (hd t)" by simp
  qed
  then have "parse_loop pw initial_pstate (tokenize s) = Inr (points initial_pstate)"
    by (rule parse_loop_skip)
  then show ?thesis
    by (simp add: parse_svg_path_robust_def initial_pstate_def)
qed

theorem no_command_gives_empty_witness:
  "parse_svg_path_robust rounded_pow [] = Inr [] \<and>
   parse_svg_path_robust rounded_pow ''10 -2.5e3 #?x'' = Inr []"
proof -
  have a: "\<forall>c \<in> set ''''. \<not> is_cmd_letter c" by simp
  have b: "\<forall>c \<in> set ''10 -2.5e3 #?x''. \<not> is_cmd_letter c"
    by (simp add: is_cmd_letter_def)
  from no_command_gives_empty [OF a, of rounded_pow] no_command_gives_empty [OF b, of rounded_pow]
  show ?thesis by simp
qed

subsection \<open>\<open>float\<close> accepts every numeric token\<close>

lemma digit_run:
  assumes "list_all is_digit ds" and "r = [] \<or> \<not> is_digit (hd r)"
  shows "takeWhile is_digit (ds @ r) = ds" and "dropWhile is_digit (ds @ r) = r"
proof -
  from assms(2) have r: "takeWhile is_digit r = []" "dropWhile is_digit r = r"
    by (cases r; simp)+
  from assms(1) have all: "\<And>x. x \<in> set ds \<Longrightarrow> is_digit x"
    by (simp add: list_all_iff)
  from all r show "takeWhile is_digit (ds @ r) = ds"
    by (simp add: takeWhile_append2)
  from all r show "dropWhile is_digit (ds @ r) = r"
    by (simp add: dropWhile_append2)
qed

lemmas char_defs = is_digit_def is_sign_def is_exp_letter_def

lemma float_mantissa_plain:
  assumes "list_all is_digit ip" and "ip \<noteq> []"
    and "r = [] \<or> (\<not> is_digit (hd r) \<and> hd r \<noteq> CHR ''.'')"
  shows "\<exists>v. float_mantissa (ip @ r) = Some (v, r)"
proof -
  from assms(3) have r: "r = [] \<or> \<not> is_digit (hd r)" by blast
  from assms(3) have nodot: "(case r of [] \<Rightarrow> False | c # _ \<Rightarrow> c = CHR ''.'') = False"
    by (cases r) auto
  show ?thesis
    by (simp add: float_mantissa_def Let_def digit_run [OF assms(1) r] nodot assms(2))
qed

lemma float_mantissa_dotted:
  assumes "list_all is_digit ip" and "list_all is_digit fp" and "fp \<noteq> []"
    and "r = [] \<or> \<not> is_digit (hd r)"
  shows "\<exists>v. float_mantissa (ip @ CHR ''.'' # fp @ r) = Some (v, r)"
proof -
  have dot: "CHR ''.'' # fp @ r = [] \<or> \<not> is_digit (hd (CHR ''.'' # fp @ r))"
    by (simp add: char_defs)
  show ?thesis
    by (simp add: float_mantissa_def Let_def digit_run [OF assms(1) dot]
        digit_run [OF assms(2) assms(4)] assms(3))
qed

lemma float_exponent_present:
  assumes "is_exp_letter e" and "esg = [] \<or> (\<exists>g. esg = [g] \<and> is_sign g)"
    and "list_all is_digit ed" and "ed \<noteq> []"
  shows "\<exists>v. float_exponent (e # esg @ ed) = Some v"
proof -
  from assms(3,4) have hd_ed: "\<not> is_sign (hd ed)"
    by (cases ed) (auto simp add: char_defs)
  from assms(2) show ?thesis
  proof
    assume "esg = []"
    with assms(1,3,4) hd_ed show ?thesis
      by (cases ed) (simp_all add: float_exponent_def Let_def)
  next
    assume "\<exists>g. esg = [g] \<and> is_sign g"
    with assms(1,3,4) show ?thesis
      by (auto simp add: float_exponent_def Let_def)
  qed
qed

lemma py_float_number_shape:
  assumes "number_shape t"
  shows "\<exists>x. py_float t = Inr x"
proof -
  from assms obtain sg ip fr ex where t: "t = sg @ ip @ fr @ ex"
    and sg: "sg = [] \<or> (\<exists>g. sg = [g] \<and> is_sign g)"
    and ip: "list_all is_digit ip"
    and fr: "(fr = [] \<and> ip \<noteq> []) \<or>
       (\<exists>fp. fr = CHR ''.'' # fp \<and> fp \<noteq> [] \<and> list_all is_digit fp)"
    and ex: "ex = [] \<or>
       (\<exists>e esg ed. ex = e # esg @ ed \<and> is_exp_letter e \<and>
          (esg = [] \<or> (\<exists>g. esg = [g] \<and> is_sign g)) \<and> ed \<noteq> [] \<and> list_all is_digit ed)"
    unfolding number_shape_def by blast
  let ?body = "ip @ fr @ ex"
  have ex_head: "ex = [] \<or> (\<not> is_digit (hd ex) \<and> hd ex \<noteq> CHR ''.'')"
    using ex by (auto simp add: char_defs)
  have mant: "\<exists>v. float_mantissa ?body = Some (v, ex)"
  proof -
    from fr show ?thesis
    proof
      assume "fr = [] \<and> ip \<noteq> []"
      with float_mantissa_plain [OF ip _ ex_head] show ?thesis by simp
    next
      assume "\<exists>fp. fr = CHR ''.'' # fp \<and> fp \<noteq> [] \<and> list_all is_digit fp"
      then obtain fp where fp: "fr = CHR ''.'' # fp" "fp \<noteq> []" "list_all is_digit fp"
        by blast
      from ex_head have "ex = [] \<or> \<not> is_digit (hd ex)" by blast
      from float_mantissa_dotted [OF ip fp(3) fp(2) this] fp(1) show ?thesis by simp
    qed
  qed
  have expo: "\<exists>v. float_exponent ex = Some v"
  proof -
    from ex show ?thesis
    proof
      assume "ex = []"
      then show ?thesis by (simp add: float_exponent_def)
    next
      assume "\<exists>e esg ed. ex = e # esg @ ed \<and> is_exp_letter e \<and>
          (esg = [] \<or> (\<exists>g. esg = [g] \<and> is_sign g)) \<and> ed \<noteq> [] \<and> list_all is_digit ed"
      then obtain e esg ed where "ex = e # esg @ ed" "is_exp_letter e"
        "esg = [] \<or> (\<exists>g. esg = [g] \<and> is_sign g)" "ed \<noteq> []" "list_all is_digit ed"
        by blast
      with float_exponent_present [of e esg ed] show ?thesis by simp
    qed
  qed
  have body_ne: "?body \<noteq> []" using fr by auto
  have body_head: "\<not> is_sign (hd ?body)"
  proof (cases ip)
    case Nil
    with fr show ?thesis by (auto simp add: char_defs)
  next
    case (Cons d ds)
    with ip show ?thesis by (auto simp add: char_defs)
  qed
  have body: "(if (case t of [] \<Rightarrow> False | g # _ \<Rightarrow> is_sign g) then tl t else t) = ?body"
    using sg body_ne body_head unfolding t by (cases ?body) auto
  from mant expo show ?thesis
    unfolding py_float_def Let_def body by auto
qed


subsection \<open>What the number pattern matches\<close>

lemma list_all_takeWhile: "list_all P (takeWhile P xs)"
  by (induction xs) simp_all

lemma match_mantissa_shape:
  assumes "match_mantissa b = Some nm"
  shows "\<exists>ip fr. take nm b = ip @ fr \<and> list_all is_digit ip \<and>
           ((fr = [] \<and> ip \<noteq> []) \<or>
            (\<exists>fp. fr = CHR ''.'' # fp \<and> fp \<noteq> [] \<and> list_all is_digit fp))"
proof -
  let ?ip = "takeWhile is_digit b"
  let ?k = "length ?ip"
  let ?r = "drop ?k b"
  have b: "b = ?ip @ ?r"
    by (metis append_take_drop_id takeWhile_eq_take)
  have ip: "list_all is_digit ?ip" by (rule list_all_takeWhile)
  show ?thesis
  proof (cases "\<exists>r'. ?r = CHR ''.'' # r' \<and> 0 < length (takeWhile is_digit r')")
    case True
    then obtain r' where r': "?r = CHR ''.'' # r'" "0 < length (takeWhile is_digit r')"
      by blast
    let ?fp = "takeWhile is_digit r'"
    from assms r' have nm: "nm = ?k + (1 + length ?fp)"
      by (simp add: match_mantissa_def Let_def)
    have "take nm b = take nm (?ip @ ?r)" using b by simp
    also have "\<dots> = ?ip @ take (1 + length ?fp) ?r"
      unfolding nm by simp
    also have "\<dots> = ?ip @ CHR ''.'' # take (length ?fp) r'"
      unfolding r'(1) by simp
    also have "take (length ?fp) r' = ?fp"
      by (metis takeWhile_eq_take)
    finally have "take nm b = ?ip @ CHR ''.'' # ?fp" .
    moreover have "?fp \<noteq> []" using r'(2) by simp
    moreover have "list_all is_digit ?fp" by (rule list_all_takeWhile)
    ultimately show ?thesis using ip by blast
  next
    case False
    then have m0: "(case ?r of [] \<Rightarrow> 0
               | c # r' \<Rightarrow> if c = CHR ''.'' then length (takeWhile is_digit r') else 0) = 0"
      by (cases ?r) auto
    from assms have "0 < ?k \<and> nm = ?k"
      unfolding match_mantissa_def Let_def m0 by (simp split: if_splits)
    then have "take nm b = ?ip @ []" "?ip \<noteq> []"
      by (simp_all add: takeWhile_eq_take [symmetric])
    with ip show ?thesis by blast
  qed
qed

lemma match_exponent_shape:
  "take (match_exponent r) r = [] \<or>
   (\<exists>e esg ed. take (match_exponent r) r = e # esg @ ed \<and> is_exp_letter e \<and>
      (esg = [] \<or> (\<exists>g. esg = [g] \<and> is_sign g)) \<and> ed \<noteq> [] \<and> list_all is_digit ed)"
proof (cases r)
  case Nil
  then show ?thesis by simp
next
  case (Cons e r1)
  let ?sg = "case r1 of [] \<Rightarrow> 0 | g # _ \<Rightarrow> if is_sign g then 1 else (0::nat)"
  let ?ed = "takeWhile is_digit (drop ?sg r1)"
  show ?thesis
  proof (cases "is_exp_letter e \<and> 0 < length ?ed")
    case False
    with Cons have "match_exponent r = 0"
      by (auto simp add: match_exponent_def Let_def)
    then show ?thesis by simp
  next
    case True
    with Cons have n: "match_exponent r = 1 + (?sg + length ?ed)"
      by (simp add: match_exponent_def Let_def)
    have "take (match_exponent r) r = e # take (?sg + length ?ed) r1"
      using n by (simp add: Cons)
    also have "take (?sg + length ?ed) r1 = take ?sg r1 @ take (length ?ed) (drop ?sg r1)"
      by (rule take_add)
    also have "take (length ?ed) (drop ?sg r1) = ?ed"
      by (metis takeWhile_eq_take)
    finally have t: "take (match_exponent r) r = e # take ?sg r1 @ ?ed" .
    have sg: "take ?sg r1 = [] \<or> (\<exists>g. take ?sg r1 = [g] \<and> is_sign g)"
      by (cases r1) auto
    have "?ed \<noteq> []" using True by simp
    moreover have "list_all is_digit ?ed" by (rule list_all_takeWhile)
    ultimately show ?thesis using t sg True by blast
  qed
qed

lemma match_number_shape:
  assumes "match_number s = Some n"
  shows "number_shape (take n s)"
proof -
  let ?sg = "case s of [] \<Rightarrow> 0 | g # _ \<Rightarrow> if is_sign g then 1 else (0::nat)"
  from assms obtain nm where nm: "match_mantissa (drop ?sg s) = Some nm"
    and n: "n = ?sg + nm + match_exponent (drop (?sg + nm) s)"
    by (auto simp add: match_number_def Let_def split: option.splits)
  let ?en = "match_exponent (drop (?sg + nm) s)"
  have "take n s = take ?sg s @ take (nm + ?en) (drop ?sg s)"
    unfolding n by (simp add: take_add add.assoc)
  also have "take (nm + ?en) (drop ?sg s) = take nm (drop ?sg s) @ take ?en (drop nm (drop ?sg s))"
    by (rule take_add)
  also have "drop nm (drop ?sg s) = drop (?sg + nm) s"
    by (simp add: add.commute)
  finally have t: "take n s = take ?sg s @ take nm (drop ?sg s) @ take ?en (drop (?sg + nm) s)" .
  have sg: "take ?sg s = [] \<or> (\<exists>g. take ?sg s = [g] \<and> is_sign g)"
    by (cases s) auto
  from match_mantissa_shape [OF nm] obtain ip fr where
    m: "take nm (drop ?sg s) = ip @ fr" "list_all is_digit ip"
       "(fr = [] \<and> ip \<noteq> []) \<or> (\<exists>fp. fr = CHR ''.'' # fp \<and> fp \<noteq> [] \<and> list_all is_digit fp)"
    by blast
  from t m(1) have "take n s = take ?sg s @ ip @ fr @ take ?en (drop (?sg + nm) s)"
    by simp
  with sg m(2,3) match_exponent_shape [of "drop (?sg + nm) s"]
  show ?thesis
    unfolding number_shape_def by blast
qed


subsection \<open>The two kinds of token\<close>

lemma tokenize_kinds:
  "t \<in> set (tokenize s) \<Longrightarrow> is_command_token t \<or> number_token t"
proof (induction s arbitrary: t rule: tokenize.induct)
  case 1
  then show ?case by simp
next
  case (2 c cs)
  show ?case
  proof (cases "is_cmd_letter c")
    case True
    with "2.prems" have "t = [c] \<or> t \<in> set (tokenize cs)" by simp
    then show ?thesis
    proof
      assume "t = [c]"
      with True show ?thesis by (simp add: is_command_token_def)
    next
      assume "t \<in> set (tokenize cs)"
      with "2.IH"(1) [OF True] show ?thesis .
    qed
  next
    case False
    show ?thesis
    proof (cases "match_number (c # cs)")
      case None
      with False "2.prems" have "t \<in> set (tokenize cs)" by simp
      with "2.IH"(2) [OF False None] show ?thesis .
    next
      case (Some n)
      from False Some "2.prems"
      have "t = take n (c # cs) \<or> t \<in> set (tokenize (drop n (c # cs)))"
        by simp
      then show ?thesis
      proof
        assume t: "t = take n (c # cs)"
        from match_number_pos [OF Some] obtain n' where "n = Suc n'"
          by (cases n) simp_all
        with t False have "t \<noteq> [] \<and> \<not> is_cmd_letter (hd t)" by simp
        moreover from match_number_shape [OF Some] t have "\<exists>x. py_float t = Inr x"
          by (simp add: py_float_number_shape)
        then have "\<not> isl (py_float t)" by auto
        ultimately show ?thesis by (simp add: number_token_def)
      next
        assume "t \<in> set (tokenize (drop n (c # cs)))"
        with "2.IH"(3) [OF False Some] show ?thesis .
      qed
    qed
  qed
qed

lemma py_float_command: "is_command_token t \<Longrightarrow> py_float t = Inl ValueError"
proof -
  assume "is_command_token t"
  then obtain c where t: "t = [c]" and c: "is_cmd_letter c"
    by (auto simp add: is_command_token_def split: list.splits)
  from c have "float_mantissa [c] = None"
    by (auto simp add: is_cmd_letter_def float_mantissa_def is_digit_def Let_def)
  moreover from c have "\<not> is_sign c"
    by (auto simp add: is_cmd_letter_def is_sign_def)
  ultimately show ?thesis
    by (simp add: py_float_def t)
qed

lemma number_not_command: "number_token t \<Longrightarrow> \<not> is_command_token t"
  by (auto simp add: number_token_def is_command_token_def split: list.splits)

subsection \<open>Commands short of operands\<close>

lemma takeWhile_short:
  "(length (takeWhile P xs) < k) = (\<exists>i<k. length xs \<le> i \<or> \<not> P (xs ! i))"
proof (induction xs arbitrary: k)
  case Nil
  show ?case by auto
next
  case (Cons x xs)
  show ?case
  proof (cases "P x")
    case False
    then show ?thesis by (cases k) auto
  next
    case True
    show ?thesis
    proof (cases k)
      case 0
      then show ?thesis by simp
    next
      case (Suc k')
      have "(\<exists>i<Suc k'. length (x # xs) \<le> i \<or> \<not> P ((x # xs) ! i)) =
            (\<exists>i<k'. length xs \<le> i \<or> \<not> P (xs ! i))"
        using True by (auto simp add: less_Suc_eq_0_disj)
      with True Suc Cons.IH [of k'] show ?thesis by simp
    qed
  qed
qed

lemma short_of_operands_iff: "short_of_operands ts = (\<exists>j<length ts. short_at ts j)"
  by (auto simp add: short_of_operands_def list_ex_iff)

lemma short_of_operands_Cons:
  "short_of_operands (t # ts) = (short_at (t # ts) 0 \<or> short_of_operands ts)"
proof -
  have shift: "short_at (t # ts) (Suc j) = short_at ts j" for j
    by (simp add: short_at_def)
  show ?thesis
    by (auto simp add: short_of_operands_iff less_Suc_eq_0_disj shift)
qed

lemma short_of_operands_drop:
  "k \<le> length (takeWhile (\<lambda>t. \<not> is_command_token t) ts) \<Longrightarrow>
   short_of_operands (drop k ts) = short_of_operands ts"
proof (induction k arbitrary: ts)
  case 0
  show ?case by simp
next
  case (Suc k)
  then obtain t ts' where ts: "ts = t # ts'" and t: "\<not> is_command_token t"
    and k: "k \<le> length (takeWhile (\<lambda>t. \<not> is_command_token t) ts')"
    by (cases ts) (auto split: if_splits)
  from t have "short_of_operands (t # ts') = short_of_operands ts'"
    by (simp add: short_of_operands_Cons short_at_def)
  with Suc.IH [OF k] ts show ?case by simp
qed


subsection \<open>One command: failure and consumption\<close>

lemma isl_bind_err: "isl (bind_err m f) = (isl m \<or> isl (f (projr m)))"
  by (cases m) simp_all

lemma bind_err_Inr: "(bind_err m f = Inr y) = (\<exists>x. m = Inr x \<and> f x = Inr y)"
  by (cases m) simp_all

lemma bind_err_Inl: "(bind_err m f = Inl e) = (m = Inl e \<or> (\<exists>x. m = Inr x \<and> f x = Inl e))"
  by (cases m) simp_all

lemma py_in_single: "py_in [c] [a, b] = (c = a \<or> c = b)"
  by auto

lemma ex_below:
  "(\<exists>i<(1::nat). P i) = P 0"
  "(\<exists>i<(2::nat). P i) = (P 0 \<or> P 1)"
  "(\<exists>i<(6::nat). P i) = (P 0 \<or> P 1 \<or> P 2 \<or> P 3 \<or> P 4 \<or> P 5)"
proof -
  show "(\<exists>i<(1::nat). P i) = P 0" by simp
  show "(\<exists>i<(2::nat). P i) = (P 0 \<or> P 1)"
    by (auto simp add: less_Suc_eq numeral_2_eq_2)
  have six: "i < 6 \<longleftrightarrow> i = 0 \<or> i = 1 \<or> i = 2 \<or> i = 3 \<or> i = 4 \<or> i = 5" for i :: nat
    by arith
  show "(\<exists>i<(6::nat). P i) = (P 0 \<or> P 1 \<or> P 2 \<or> P 3 \<or> P 4 \<or> P 5)"
    unfolding six by blast
qed

lemma approximate_bezier_five_ok: "\<not> isl (approximate_bezier pw p0 p1 p2 p3 5)"
  by (simp add: approximate_bezier_def)

lemma cmd_letter_disj:
  assumes "is_cmd_letter c"
  shows "c = CHR ''M'' \<or> c = CHR ''L'' \<or> c = CHR ''H'' \<or> c = CHR ''V'' \<or>
    c = CHR ''Z'' \<or> c = CHR ''C'' \<or> c = CHR ''m'' \<or> c = CHR ''l'' \<or>
    c = CHR ''h'' \<or> c = CHR ''v'' \<or> c = CHR ''z'' \<or> c = CHR ''c''"
  using assms by (simp add: is_cmd_letter_def)

lemma parse_cmd_fails:
  assumes "is_cmd_letter c"
  shows "isl (parse_cmd pw st [c] rest) = (\<exists>i<operand_count [c]. isl (float_at rest i))"
  using cmd_letter_disj [OF assms]
  by (elim disjE)
     (simp_all add: parse_cmd_def py_in_single operand_count_def isl_bind_err Let_def
        ex_below approximate_bezier_five_ok del: py_in.simps)

lemma bind_err_InrE:
  assumes "bind_err m f = Inr y"
  obtains x where "m = Inr x" and "f x = Inr y"
  using assms by (cases m) simp_all

lemma parse_cmd_consumes:
  assumes "is_cmd_letter c" and "parse_cmd pw st [c] rest = Inr (st', k)"
  shows "k = operand_count [c]"
  using cmd_letter_disj [OF assms(1)] assms(2)
  by (elim disjE;
      simp add: parse_cmd_def py_in_single Let_def del: py_in.simps;
      (elim bind_err_InrE)?;
      simp add: operand_count_def)


subsection \<open>When parsing fails\<close>

lemma py_float_error: "py_float t = Inl e \<Longrightarrow> e = ValueError"
  by (auto simp add: py_float_def Let_def split: option.splits)

lemma float_at_error: "float_at rest i = Inl e \<Longrightarrow> e = IndexError \<or> e = ValueError"
  by (auto simp add: float_at_def dest: py_float_error split: if_splits)

lemma bind_err_InlE:
  assumes "bind_err m f = Inl e"
  obtains "m = Inl e" | x where "m = Inr x" and "f x = Inl e"
  using assms by (cases m) simp_all

lemma parse_cmd_error:
  assumes "parse_cmd pw st t rest = Inl e"
  shows "e = IndexError \<or> e = ValueError"
  using assms unfolding parse_cmd_def Let_def
  by (simp split: if_splits del: py_in.simps;
      (elim bind_err_InlE)?;
      (simp add: approximate_bezier_def float_at_error)?)

lemma parse_loop_error:
  "parse_loop pw st ts = Inl e \<Longrightarrow> e = IndexError \<or> e = ValueError"
proof (induction pw st ts rule: parse_loop.induct)
  case (1 pw st)
  then show ?case by simp
next
  case (2 pw st cmd rest)
  show ?case
  proof (cases "parse_cmd pw st cmd rest")
    case (Inl e')
    with "2.prems" have "e' = e" by simp
    with Inl show ?thesis by (simp add: parse_cmd_error)
  next
    case (Inr r)
    obtain st' k where r: "r = (st', k)" by (cases r)
    from "2.prems" Inr r have "parse_loop pw st' (drop k rest) = Inl e" by simp
    with "2.IH" [OF Inr r [symmetric]] show ?thesis .
  qed
qed

lemma parse_loop_fails:
  assumes "\<forall>t \<in> set ts. is_command_token t \<or> number_token t"
  shows "isl (parse_loop pw st ts) = short_of_operands ts"
  using assms
proof (induction pw st ts rule: parse_loop.induct)
  case (1 pw st)
  show ?case by (simp add: short_of_operands_def)
next
  case (2 pw st cmd rest)
  from "2.prems" have rest_ok: "\<forall>t \<in> set rest. is_command_token t \<or> number_token t"
    and cmd_ok: "is_command_token cmd \<or> number_token cmd"
    by simp_all
  have drop_ok: "\<forall>t \<in> set (drop k rest). is_command_token t \<or> number_token t" for k
    using rest_ok by (meson in_set_dropD)
  have float_fail: "isl (float_at rest i) = (length rest \<le> i \<or> is_command_token (rest ! i))" for i
  proof (cases "i < length rest")
    case False
    then show ?thesis by (simp add: float_at_def)
  next
    case True
    with rest_ok have "is_command_token (rest ! i) \<or> number_token (rest ! i)" by simp
    then show ?thesis
    proof
      assume "is_command_token (rest ! i)"
      with True show ?thesis by (simp add: float_at_def py_float_command)
    next
      assume n: "number_token (rest ! i)"
      then have "\<not> is_command_token (rest ! i)" by (rule number_not_command)
      moreover from n have "\<not> isl (py_float (rest ! i))" by (auto simp add: number_token_def)
      ultimately show ?thesis using True by (simp add: float_at_def)
    qed
  qed
  let ?run = "length (takeWhile (\<lambda>t. \<not> is_command_token t) rest)"
  show ?case
  proof (cases "is_command_token cmd")
    case False
    with cmd_ok have "number_token cmd" by simp
    then have skip: "parse_cmd pw st cmd rest = Inr (st, 0)"
      by (simp add: number_token_def parse_cmd_skip)
    from "2.IH" [OF skip refl] rest_ok
    have "isl (parse_loop pw st rest) = short_of_operands rest" by simp
    moreover from False have "short_of_operands (cmd # rest) = short_of_operands rest"
      by (simp add: short_of_operands_Cons short_at_def)
    ultimately show ?thesis by (simp add: skip)
  next
    case True
    then obtain c where cmd: "cmd = [c]" and c: "is_cmd_letter c"
      by (auto simp add: is_command_token_def split: list.splits)
    have fails: "isl (parse_cmd pw st cmd rest) = (?run < operand_count cmd)"
      unfolding cmd parse_cmd_fails [OF c] float_fail
      by (simp add: takeWhile_short)
    have at0: "short_at (cmd # rest) 0 = (?run < operand_count cmd)"
      using True by (simp add: short_at_def)
    show ?thesis
    proof (cases "?run < operand_count cmd")
      case True
      with fails obtain e where "parse_cmd pw st cmd rest = Inl e"
        by (cases "parse_cmd pw st cmd rest") auto
      then have "isl (parse_loop pw st (cmd # rest))" by simp
      moreover from True at0 have "short_of_operands (cmd # rest)"
        by (simp add: short_of_operands_Cons)
      ultimately show ?thesis by simp
    next
      case False
      with fails obtain r where r: "parse_cmd pw st cmd rest = Inr r"
        by (cases "parse_cmd pw st cmd rest") auto
      obtain st' k where sk: "r = (st', k)" by (cases r)
      from r sk parse_cmd_consumes [OF c, of pw st rest st' k]
      have k: "k = operand_count cmd" by (simp add: cmd)
      with False have "k \<le> ?run" by simp
      then have "short_of_operands (drop k rest) = short_of_operands rest"
        by (rule short_of_operands_drop)
      moreover from "2.IH" [OF r sk [symmetric]] drop_ok
      have "isl (parse_loop pw st' (drop k rest)) = short_of_operands (drop k rest)" by simp
      moreover from False at0 have "short_of_operands (cmd # rest) = short_of_operands rest"
        by (simp add: short_of_operands_Cons)
      ultimately show ?thesis by (simp add: r sk)
    qed
  qed
qed

subsection \<open>Which exception\<close>

lemma find_map_index: "find P (map f xs) = map_option f (find (P \<circ> f) xs)"
  by (induction xs) simp_all

lemma first_short_Cons:
  "first_short (t # ts) =
     (if short_at (t # ts) 0 then Some 0 else map_option Suc (first_short ts))"
proof -
  have shift: "short_at (t # ts) \<circ> Suc = short_at ts"
    by (rule ext) (simp add: short_at_def)
  have "[0..<length (t # ts)] = 0 # map Suc [0..<length ts]"
    by (simp add: upt_conv_Cons map_Suc_upt del: upt_Suc)
  then show ?thesis
    by (simp add: first_short_def find_map_index shift del: upt_Suc)
qed

lemma failure_kind_Cons:
  "failure_kind (t # ts) =
     (if short_at (t # ts) 0
      then Some (if length (takeWhile (\<lambda>t. \<not> is_command_token t) ts) = length ts
                 then IndexError else ValueError)
      else failure_kind ts)"
  by (cases "first_short ts") (simp_all add: failure_kind_def first_short_Cons)

lemma failure_kind_drop:
  "k \<le> length (takeWhile (\<lambda>t. \<not> is_command_token t) ts) \<Longrightarrow>
   failure_kind (drop k ts) = failure_kind ts"
proof (induction k arbitrary: ts)
  case 0
  show ?case by simp
next
  case (Suc k)
  then obtain t ts' where ts: "ts = t # ts'" and t: "\<not> is_command_token t"
    and k: "k \<le> length (takeWhile (\<lambda>t. \<not> is_command_token t) ts')"
    by (cases ts) (auto split: if_splits)
  from t have "failure_kind (t # ts') = failure_kind ts'"
    by (simp add: failure_kind_Cons short_at_def)
  with Suc.IH [OF k] ts show ?case by simp
qed

text \<open>
  The operands of one command, read in the order of the source: \<open>n\<close> tokens from index
  \<open>i\<close> on, or the exception of the first that cannot be read.
\<close>

fun floats_from :: "string list \<Rightarrow> nat \<Rightarrow> nat \<Rightarrow> py_error + pyfloat list" where
  "floats_from rest i 0 = Inr []"
| "floats_from rest i (Suc n) =
     bind_err (float_at rest i) (\<lambda>x.
     bind_err (floats_from rest (Suc i) n) (\<lambda>xs. Inr (x # xs)))"

lemma floats_from_error:
  "(floats_from rest i n = Inl e) =
     (\<exists>r<n. float_at rest (i + r) = Inl e \<and> (\<forall>k<r. \<not> isl (float_at rest (i + k))))"
proof (induction n arbitrary: i)
  case 0
  show ?case by simp
next
  case (Suc n)
  show ?case
  proof (cases "float_at rest i")
    case (Inl e')
    have "(\<exists>r<Suc n. float_at rest (i + r) = Inl e \<and> (\<forall>k<r. \<not> isl (float_at rest (i + k)))) =
          (e' = e)"
    proof
      assume "\<exists>r<Suc n. float_at rest (i + r) = Inl e \<and> (\<forall>k<r. \<not> isl (float_at rest (i + k)))"
      then obtain r where r: "float_at rest (i + r) = Inl e"
        "\<forall>k<r. \<not> isl (float_at rest (i + k))" by blast
      have "r = 0"
      proof (rule ccontr)
        assume "r \<noteq> 0"
        with r(2) have "\<not> isl (float_at rest (i + 0))" by blast
        with Inl show False by simp
      qed
      with r(1) Inl show "e' = e" by simp
    next
      assume "e' = e"
      with Inl have "float_at rest (i + 0) = Inl e \<and> (\<forall>k<0. \<not> isl (float_at rest (i + k)))"
        by simp
      then show "\<exists>r<Suc n. float_at rest (i + r) = Inl e \<and> (\<forall>k<r. \<not> isl (float_at rest (i + k)))"
        by blast
    qed
    with Inl show ?thesis by simp
  next
    case (Inr x)
    have "(\<exists>r<Suc n. float_at rest (i + r) = Inl e \<and> (\<forall>k<r. \<not> isl (float_at rest (i + k)))) =
          (\<exists>r<n. float_at rest (Suc i + r) = Inl e \<and> (\<forall>k<r. \<not> isl (float_at rest (Suc i + k))))"
      (is "?L = ?R")
    proof
      assume ?L
      then obtain r where r: "r < Suc n" "float_at rest (i + r) = Inl e"
        "\<forall>k<r. \<not> isl (float_at rest (i + k))" by blast
      from r(2) Inr have "r \<noteq> 0" by (cases "r = 0") simp_all
      then obtain r' where r': "r = Suc r'" by (cases r) simp_all
      with r have "r' < n" "float_at rest (Suc i + r') = Inl e" by simp_all
      moreover from r(3) r' have "\<forall>k<r'. \<not> isl (float_at rest (Suc i + k))"
        by (metis Suc_less_eq add_Suc_shift)
      ultimately show ?R by blast
    next
      assume ?R
      then obtain r where r: "r < n" "float_at rest (Suc i + r) = Inl e"
        "\<forall>k<r. \<not> isl (float_at rest (Suc i + k))" by blast
      have all: "\<forall>k<Suc r. \<not> isl (float_at rest (i + k))"
      proof (intro allI impI)
        fix k assume "k < Suc r"
        show "\<not> isl (float_at rest (i + k))"
        proof (cases k)
          case 0
          with Inr show ?thesis by simp
        next
          case (Suc k')
          with \<open>k < Suc r\<close> r(3) show ?thesis by simp
        qed
      qed
      from r have "Suc r < Suc n" "float_at rest (i + Suc r) = Inl e" by simp_all
      with all show ?L by blast
    qed
    moreover have "(floats_from rest i (Suc n) = Inl e) = (floats_from rest (Suc i) n = Inl e)"
      using Inr by (cases "floats_from rest (Suc i) n") simp_all
    ultimately show ?thesis using Suc.IH [of "Suc i"] by simp
  qed
qed

lemma parse_cmd_error_iff:
  assumes "is_cmd_letter c"
  shows "(parse_cmd pw st [c] rest = Inl e) = (floats_from rest 0 (operand_count [c]) = Inl e)"
  using cmd_letter_disj [OF assms]
  by (elim disjE)
     (simp_all add: parse_cmd_def py_in_single operand_count_def bind_err_Inl Let_def
        numeral_eq_Suc approximate_bezier_def del: py_in.simps)

lemma parse_loop_failure:
  assumes "\<forall>t \<in> set ts. is_command_token t \<or> number_token t"
  shows "(parse_loop pw st ts = Inl e) = (failure_kind ts = Some e)"
  using assms
proof (induction pw st ts rule: parse_loop.induct)
  case (1 pw st)
  show ?case by (simp add: failure_kind_def first_short_def)
next
  case (2 pw st cmd rest)
  from "2.prems" have rest_ok: "\<forall>t \<in> set rest. is_command_token t \<or> number_token t"
    and cmd_ok: "is_command_token cmd \<or> number_token cmd"
    by simp_all
  have drop_ok: "\<forall>t \<in> set (drop k rest). is_command_token t \<or> number_token t" for k
    using rest_ok by (meson in_set_dropD)
  let ?num = "\<lambda>t. \<not> is_command_token t"
  let ?run = "length (takeWhile ?num rest)"
  show ?case
  proof (cases "is_command_token cmd")
    case False
    with cmd_ok have "number_token cmd" by simp
    then have skip: "parse_cmd pw st cmd rest = Inr (st, 0)"
      by (simp add: number_token_def parse_cmd_skip)
    from "2.IH" [OF skip refl] rest_ok
    have "(parse_loop pw st rest = Inl e) = (failure_kind rest = Some e)" by simp
    moreover from False have "failure_kind (cmd # rest) = failure_kind rest"
      by (simp add: failure_kind_Cons short_at_def)
    ultimately show ?thesis by (simp add: skip)
  next
    case True
    then obtain c where cmd: "cmd = [c]" and c: "is_cmd_letter c"
      by (auto simp add: is_command_token_def split: list.splits)
    have at0: "short_at (cmd # rest) 0 = (?run < operand_count cmd)"
      using True by (simp add: short_at_def)
    have readable: "\<not> isl (float_at rest k)" if "k < ?run" for k
    proof -
      from that have "takeWhile ?num rest ! k \<in> set (takeWhile ?num rest)"
        by (rule nth_mem)
      then have "?num (takeWhile ?num rest ! k)"
        by (rule set_takeWhileD [THEN conjunct2])
      with that have notcmd: "\<not> is_command_token (rest ! k)"
        by (simp add: takeWhile_nth)
      from that have k: "k < length rest"
        using length_takeWhile_le [of ?num rest] by simp
      with rest_ok notcmd have "number_token (rest ! k)" by auto
      with k show ?thesis by (simp add: float_at_def number_token_def)
    qed
    show ?thesis
    proof (cases "?run < operand_count cmd")
      case short: True
      let ?E = "if ?run = length rest then IndexError else ValueError"
      have "float_at rest ?run = Inl ?E"
      proof (cases "?run = length rest")
        case True
        then show ?thesis by (simp add: float_at_def)
      next
        case False
        then have lt: "?run < length rest"
          using length_takeWhile_le [of ?num rest] by simp
        then have "\<not> ?num (rest ! ?run)"
          by (rule nth_length_takeWhile)
        then have "py_float (rest ! ?run) = Inl ValueError"
          by (simp add: py_float_command)
        with lt False show ?thesis by (simp add: float_at_def)
      qed
      with short readable
      have "\<exists>r<operand_count [c]. float_at rest (0 + r) = Inl ?E \<and>
              (\<forall>k<r. \<not> isl (float_at rest (0 + k)))"
        unfolding cmd by (intro exI [of _ ?run]) simp
      then have "parse_cmd pw st cmd rest = Inl ?E"
        unfolding cmd parse_cmd_error_iff [OF c] floats_from_error .
      then have "parse_loop pw st (cmd # rest) = Inl ?E" by simp
      moreover from short at0 have "failure_kind (cmd # rest) = Some ?E"
        by (simp add: failure_kind_Cons)
      ultimately show ?thesis by auto
    next
      case False
      have "\<not> isl (parse_cmd pw st cmd rest)"
      proof
        assume "isl (parse_cmd pw st cmd rest)"
        then obtain e' where "parse_cmd pw st cmd rest = Inl e'"
          by (cases "parse_cmd pw st cmd rest") auto
        then obtain r where r: "r < operand_count [c]" "float_at rest (0 + r) = Inl e'"
          unfolding cmd parse_cmd_error_iff [OF c] floats_from_error by blast
        with False have "r < ?run" by (simp add: cmd)
        then have "\<not> isl (float_at rest r)" by (rule readable)
        with r(2) show False by simp
      qed
      then obtain r where r: "parse_cmd pw st cmd rest = Inr r"
        by (cases "parse_cmd pw st cmd rest") auto
      obtain st' k where sk: "r = (st', k)" by (cases r)
      from r sk parse_cmd_consumes [OF c, of pw st rest st' k]
      have k: "k = operand_count cmd" by (simp add: cmd)
      with False have "k \<le> ?run" by simp
      then have "failure_kind (drop k rest) = failure_kind rest"
        by (rule failure_kind_drop)
      moreover from "2.IH" [OF r sk [symmetric]] drop_ok
      have "(parse_loop pw st' (drop k rest) = Inl e) = (failure_kind (drop k rest) = Some e)"
        by simp
      moreover from False at0 have "failure_kind (cmd # rest) = failure_kind rest"
        by (simp add: failure_kind_Cons)
      ultimately show ?thesis by (simp add: r sk)
    qed
  qed
qed

text \<open>
  C2, as the code has it. Parsing fails exactly when some command letter among the tokens
  is directly followed by fewer numeric tokens than its operand count (2 for Move and
  Line, 1 for Horizontal and Vertical line, 6 for Cubic, 0 for Close). The exception is
  that of the first such command: \<open>IndexError\<close> when the tokens end before its operands
  are complete, \<open>ValueError\<close> when another command letter comes first. In every other
  case the parser returns a polyline. Numeric tokens that stand where a command is
  expected, those before the first command letter included, are passed over without an
  exception.
\<close>

theorem parse_fails_iff_short_of_operands:
  "(\<exists>e. parse_svg_path_robust pw s = Inl e) = short_of_operands (tokenize s) \<and>
   (parse_svg_path_robust pw s = Inl e) = (failure_kind (tokenize s) = Some e) \<and>
   parse_svg_path_robust pw s \<in> {Inl IndexError, Inl ValueError} \<union> range Inr"
proof (intro conjI)
  have kinds: "\<forall>t \<in> set (tokenize s). is_command_token t \<or> number_token t"
    by (simp add: tokenize_kinds)
  have "isl (parse_loop pw initial_pstate (tokenize s)) = short_of_operands (tokenize s)"
    using kinds by (rule parse_loop_fails)
  then show "(\<exists>e. parse_svg_path_robust pw s = Inl e) = short_of_operands (tokenize s)"
    by (simp add: parse_svg_path_robust_def isl_def)
  show "(parse_svg_path_robust pw s = Inl e) = (failure_kind (tokenize s) = Some e)"
    unfolding parse_svg_path_robust_def using kinds by (rule parse_loop_failure)
  show "parse_svg_path_robust pw s \<in> {Inl IndexError, Inl ValueError} \<union> range Inr"
  proof (cases "parse_svg_path_robust pw s")
    case (Inl e)
    then have "parse_loop pw initial_pstate (tokenize s) = Inl e"
      by (simp add: parse_svg_path_robust_def)
    then have "e = IndexError \<or> e = ValueError"
      by (rule parse_loop_error)
    with Inl show ?thesis by auto
  next
    case (Inr pts)
    then show ?thesis by simp
  qed
qed

lemma tokens_leading_number: "tokenize ''5 M0,0'' = [''5'', ''M'', ''0'', ''0'']"
  by (simp add: tokenizer_defs)

text \<open>
  Against C2 as stated: in \<open>5 M0,0\<close> a numeric token comes before any command letter,
  and the parser returns the polyline \<open>[(0, 0)]\<close>.
\<close>

theorem leading_number_counterexample:
  "hd (tokenize ''5 M0,0'') = ''5'' \<and>
   parse_svg_path_robust rounded_pow ''5 M0,0'' = Inr [(Fin 0, Fin 0)]"
  unfolding parse_svg_path_robust_def tokens_leading_number
  by (simp add: parser_defs float_literals)

text \<open>
  The two ways to fail: the tokens end before the operands are read, or a command letter
  stands where an operand is expected.
\<close>

lemma parse_failures:
  "parse_svg_path_robust pw ''M 1'' = Inl IndexError"
  "parse_svg_path_robust pw ''M L 1 2'' = Inl ValueError"
  "failure_kind (tokenize ''M 1'') = Some IndexError"
  "failure_kind (tokenize ''M L 1 2'') = Some ValueError"
proof -
  have t1: "tokenize ''M 1'' = [''M'', ''1'']"
    and t2: "tokenize ''M L 1 2'' = [''M'', ''L'', ''1'', ''2'']"
    by (simp_all add: tokenizer_defs)
  have l: "py_float ''L'' = Inl ValueError" by (simp add: float_defs)
  show "parse_svg_path_robust pw ''M 1'' = Inl IndexError"
    unfolding parse_svg_path_robust_def t1
    by (simp add: parser_defs float_literals)
  show "parse_svg_path_robust pw ''M L 1 2'' = Inl ValueError"
    unfolding parse_svg_path_robust_def t2
    by (simp add: parser_defs l)
  show "failure_kind (tokenize ''M 1'') = Some IndexError"
    unfolding t1
    by (simp add: failure_kind_Cons short_at_def is_command_token_def operand_count_def
        is_cmd_letter_def)
  show "failure_kind (tokenize ''M L 1 2'') = Some ValueError"
    unfolding t2
    by (simp add: failure_kind_Cons short_at_def is_command_token_def operand_count_def
        is_cmd_letter_def)
qed

subsection \<open>Cubic commands\<close>





lemma float_at_double: "float_at rest k = Inr (Fin x) \<Longrightarrow> is_double x"
  by (auto simp add: float_at_def split: if_splits dest: rounded_results_are_doubles(2))

text \<open>
  The parser starts from a state of float values, and every command keeps it one.
\<close>

lemma float_value_at: "float_at rest k = Inr a \<Longrightarrow> float_value a"
  by (cases a) (auto simp add: float_value_def dest: float_at_double)

lemma float_value_add: "float_value (a + b)"
  by (cases "a + b") (auto simp add: float_value_def dest: float_add_finite)

lemma float_state_initial: "float_state initial_pstate"
  by (simp add: float_state_def float_value_def initial_pstate_def is_double_def
      to_double_numeral)

lemma parse_cmd_float_state:
  assumes "float_state st" and "parse_cmd pw st cmd rest = Inr (st', k)"
  shows "float_state st'"
  using assms unfolding parse_cmd_def Let_def
  by (simp split: if_splits del: py_in.simps;
      (elim bind_err_InrE)?;
      (auto simp add: float_state_def float_value_add dest: float_value_at)?)













end
